theory Spec2Isabelle
  imports Main
begin

unbundle bit_operations_syntax

section \<open>Python values used by the solver\<close>

text \<open>
  The development embeds \<^verbatim>\<open>show-order/mvm_showcase_order.py\<close> (class
  \<^verbatim>\<open>SetlistSolver\<close>).  Python's unbounded integers are \<^typ>\<open>int\<close>, list
  positions and bit positions are \<^typ>\<open>nat\<close>, a \<^verbatim>\<open>str\<close> is a \<^typ>\<open>string\<close>
  whose characters stand for the code points 0 to 255, a \<^verbatim>\<open>Set[str]\<close> is a
  \<^typ>\<open>string set\<close>, and a \<^verbatim>\<open>dict\<close> whose iteration order matters is an
  association list in insertion order (its keys are distinct).

  The member names of the input are strings, on which \<^verbatim>\<open>str(m)\<close> is the
  identity.  The definitions of the program come first, in the order of the source;
  the invariants and the proofs follow.

  Every way in which a run can end other than by returning is a value of
  \<open>error\<close>: the three \<^verbatim>\<open>ValueError\<close>s the source raises itself, the
  \<^verbatim>\<open>KeyError\<close> and \<^verbatim>\<open>IndexError\<close> of a failed dictionary or list
  access, the \<^verbatim>\<open>RecursionError\<close> that the interpreter raises when calls nest
  deeper than it allows, and \<open>NonTermination\<close> for a loop that never leaves (this
  one is not a Python exception: it marks a run that does not come back).
\<close>

datatype error =
    EmptyInput
  | StartNotFound string
  | EndNotFound string
  | KeyError
  | IndexError
  | RecursionError
  | NonTermination

text \<open>\<^verbatim>\<open>xs[i]\<close> for a non-negative index, and \<^verbatim>\<open>d[k]\<close> for a dictionary.\<close>

definition getitem :: "'a list \<Rightarrow> nat \<Rightarrow> error + 'a" where
  "getitem xs i = (if i < length xs then Inr (xs ! i) else Inl IndexError)"

definition setitem :: "'a list \<Rightarrow> nat \<Rightarrow> 'a \<Rightarrow> error + 'a list" where
  "setitem xs i v = (if i < length xs then Inr (xs[i := v]) else Inl IndexError)"

definition lookup :: "('k \<rightharpoonup> 'v) \<Rightarrow> 'k \<Rightarrow> error + 'v" where
  "lookup d k = (case d k of None \<Rightarrow> Inl KeyError | Some v \<Rightarrow> Inr v)"

text \<open>A list comprehension whose element expression may raise: the first failure ends it.\<close>

fun map_r :: "('a \<Rightarrow> error + 'b) \<Rightarrow> 'a list \<Rightarrow> error + 'b list" where
  "map_r f [] = Inr []"
| "map_r f (x # xs) =
     (case f x of
        Inl e \<Rightarrow> Inl e
      | Inr y \<Rightarrow> (case map_r f xs of Inl e \<Rightarrow> Inl e | Inr ys \<Rightarrow> Inr (y # ys)))"

text \<open>
  \<^verbatim>\<open>sorted(xs, key=k)\<close> and \<^verbatim>\<open>xs.sort(key=k)\<close>: the keys are computed once,
  in list order, and the sort is stable; \<^const>\<open>sort_key\<close> is a stable insertion sort.
\<close>

definition sorted_by :: "('a \<Rightarrow> error + nat) \<Rightarrow> 'a list \<Rightarrow> error + 'a list" where
  "sorted_by k xs =
     (case map_r k xs of
        Inl e \<Rightarrow> Inl e
      | Inr ks \<Rightarrow> Inr (map snd (sort_key fst (zip ks xs))))"

text \<open>\<^verbatim>\<open>bin(x).count("1")\<close>: the number of ones in the binary digits of \<open>|x|\<close>.\<close>

fun count_ones :: "nat \<Rightarrow> nat" where
  "count_ones n = (if n = 0 then 0 else n mod 2 + count_ones (n div 2))"

declare count_ones.simps [simp del]

definition bin_count1 :: "int \<Rightarrow> nat" where
  "bin_count1 x = count_ones (nat \<bar>x\<bar>)"

text \<open>\<^verbatim>\<open>x.bit_length()\<close>: the number of binary digits of \<open>|x|\<close>.\<close>

fun nat_bit_length :: "nat \<Rightarrow> nat" where
  "nat_bit_length n = (if n = 0 then 0 else Suc (nat_bit_length (n div 2)))"

declare nat_bit_length.simps [simp del]

definition bit_length :: "int \<Rightarrow> nat" where
  "bit_length x = nat_bit_length (nat \<bar>x\<bar>)"

text \<open>
  \<^verbatim>\<open>s.strip()\<close>: leading and trailing whitespace removed.  Below code point 256
  Python's whitespace is 9 to 13, 28 to 32, 133 and 160.
\<close>

definition isspace :: "char \<Rightarrow> bool" where
  "isspace c = (of_char c \<in> {9, 10, 11, 12, 13, 28, 29, 30, 31, 32, 133, 160 :: nat})"

definition strip :: "string \<Rightarrow> string" where
  "strip s = rev (dropWhile isspace (rev (dropWhile isspace s)))"

text \<open>The truth value of an \<^verbatim>\<open>Optional[str]\<close>: \<^verbatim>\<open>None\<close> and the empty string are false.\<close>

fun truthy :: "string option \<Rightarrow> bool" where
  "truthy None = False"
| "truthy (Some s) = (s \<noteq> [])"

section \<open>The solver object and its construction\<close>

record solver =
  teams_to_members :: "(string \<times> string set) list"
  teams :: "string list"
  team_count :: nat
  team_to_idx :: "string \<rightharpoonup> nat"
  adjacency_masks :: "int list"

text \<open>
  \<^verbatim>\<open>_build_compatibility_graph\<close>, lines 25 to 37.  It reads the fields
  \<^verbatim>\<open>teams\<close>, \<^verbatim>\<open>team_count\<close> and \<^verbatim>\<open>teams_to_members\<close> that
  \<^verbatim>\<open>__init__\<close> has set before the call.  \<open>mask_loop\<close> is the inner loop over
  \<^verbatim>\<open>enumerate(self.teams)\<close> with the mask \<open>msk\<close> built so far, \<open>adj_loop\<close> the outer one
  with the list \<^verbatim>\<open>adj\<close>.
\<close>

fun mask_loop ::
  "(string \<times> string set) list \<Rightarrow> nat \<Rightarrow> string set \<Rightarrow> (nat \<times> string) list \<Rightarrow> int \<Rightarrow> error + int"
where
  "mask_loop ttm i members_i [] msk = Inr msk"
| "mask_loop ttm i members_i ((j, team_j) # rest) msk =
     (if i = j then mask_loop ttm i members_i rest msk
      else
        (case lookup (map_of ttm) team_j of
           Inl e \<Rightarrow> Inl e
         | Inr members_j \<Rightarrow>
             mask_loop ttm i members_i rest
               (if members_j \<inter> members_i = {} then msk OR push_bit j 1 else msk)))"

fun adj_loop ::
  "(string \<times> string set) list \<Rightarrow> string list \<Rightarrow> (nat \<times> string) list \<Rightarrow> int list \<Rightarrow> error + int list"
where
  "adj_loop ttm ts [] adj = Inr adj"
| "adj_loop ttm ts ((i, team_i) # rest) adj =
     (case lookup (map_of ttm) team_i of
        Inl e \<Rightarrow> Inl e
      | Inr members_i \<Rightarrow>
          (case mask_loop ttm i members_i (enumerate 0 ts) 0 of
             Inl e \<Rightarrow> Inl e
           | Inr msk \<Rightarrow>
               (case setitem adj i msk of
                  Inl e \<Rightarrow> Inl e
                | Inr adj' \<Rightarrow> adj_loop ttm ts rest adj')))"

definition build_compatibility_graph ::
  "(string \<times> string set) list \<Rightarrow> string list \<Rightarrow> nat \<Rightarrow> error + int list"
where
  "build_compatibility_graph ttm ts n = adj_loop ttm ts (enumerate 0 ts) (replicate n 0)"

text \<open>
  \<^verbatim>\<open>__init__\<close>, lines 10 to 23.  The argument is the input dictionary in
  insertion order; \<open>construct\<close> returns the constructed object or the error raised.
  \<open>index_dict\<close> is the dictionary comprehension of line 22, in which a later
  position of a name replaces an earlier one.
\<close>

definition index_dict :: "string list \<Rightarrow> (string \<rightharpoonup> nat)" where
  "index_dict ts = fold (\<lambda>(i, team) d. d(team \<mapsto> i)) (enumerate 0 ts) Map.empty"

definition construct :: "(string \<times> string set) list \<Rightarrow> error + solver" where
  "construct tm =
     (if tm = [] then Inl EmptyInput
      else
        let ttm = map (\<lambda>(team, members). (team, strip ` members)) tm;
            ts = map fst ttm;
            n = length ts
        in (case build_compatibility_graph ttm ts n of
              Inl e \<Rightarrow> Inl e
            | Inr adj \<Rightarrow>
                Inr \<lparr> teams_to_members = ttm, teams = ts, team_count = n,
                      team_to_idx = index_dict ts, adjacency_masks = adj \<rparr>))"

section \<open>Validation of a sequence of team names\<close>

text \<open>
  \<^verbatim>\<open>_sequence_is_valid\<close>, lines 157 to 163: the loop over
  \<^verbatim>\<open>zip(seq, seq[1:])\<close>, returning \<^verbatim>\<open>(True, None)\<close> or
  \<^verbatim>\<open>(False, (a, b, overlap))\<close> at the first pair that shares a member.
\<close>

fun pairs_valid ::
  "(string \<times> string set) list \<Rightarrow> (string \<times> string) list \<Rightarrow>
     error + (bool \<times> (string \<times> string \<times> string set) option)"
where
  "pairs_valid ttm [] = Inr (True, None)"
| "pairs_valid ttm ((a, b) # rest) =
     (case lookup (map_of ttm) a of
        Inl e \<Rightarrow> Inl e
      | Inr members_a \<Rightarrow>
          (case lookup (map_of ttm) b of
             Inl e \<Rightarrow> Inl e
           | Inr members_b \<Rightarrow>
               (let overlap = members_a \<inter> members_b
                in if overlap \<noteq> {} then Inr (False, Some (a, b, overlap))
                   else pairs_valid ttm rest)))"

definition sequence_is_valid ::
  "solver \<Rightarrow> string list \<Rightarrow> error + (bool \<times> (string \<times> string \<times> string set) option)"
where
  "sequence_is_valid self seq = pairs_valid (teams_to_members self) (zip seq (tl seq))"

section \<open>The backtracking search\<close>

text \<open>
  Lines 134 to 139: the loop that takes the set bits of \<^verbatim>\<open>x\<close> from the lowest
  up.  On a negative \<^verbatim>\<open>x\<close> it never ends, so the model's loop returns an
  option, \<open>None\<close> for a run that does not return.
\<close>

partial_function (option) bits_loop :: "int \<Rightarrow> nat list \<Rightarrow> nat list option" where
  "bits_loop x cands =
     (if x = 0 then Some cands
      else bits_loop (x XOR (x AND - x)) (cands @ [bit_length (x AND - x) - 1]))"

declare bits_loop.simps [code]

text \<open>
  Lines 125 to 132: the end node is kept out of the mask before the last slot and is
  the only bit of the mask at the last slot; \<open>None\<close> is the \<^verbatim>\<open>return\<close> of line 132.
\<close>

definition reserve_end :: "nat \<Rightarrow> nat option \<Rightarrow> nat \<Rightarrow> int \<Rightarrow> int option" where
  "reserve_end n end_node_r L allowed =
     (case end_node_r of
        None \<Rightarrow> Some allowed
      | Some e \<Rightarrow>
          (let allowed1 = (if int L < int n - 1 then allowed AND NOT (push_bit e 1) else allowed)
           in if int L = int n - 1
              then (if drop_bit e allowed1 AND 1 \<noteq> 0 then Some (push_bit e 1) else None)
              else Some allowed1))"

text \<open>
  Lines 119 to 142: the candidates of one frame, in the order in which the
  \<^verbatim>\<open>for\<close> loop of line 144 visits them; \<open>Inr None\<close> is the early return.
  The first slot is offered the start node or every node, the end node among them: the
  reservation of lines 125 to 132 is in the branch of a path that is not empty.
\<close>

definition candidates ::
  "nat \<Rightarrow> int list \<Rightarrow> nat option \<Rightarrow> nat option \<Rightarrow> nat list \<Rightarrow> int \<Rightarrow> error + nat list option"
where
  "candidates n adj_r start_node_r end_node_r path used_mask =
     (let L = length path
      in if L = 0
         then Inr (Some (case start_node_r of Some s \<Rightarrow> [s] | None \<Rightarrow> [0..<n]))
         else
           (case getitem adj_r (last path) of
              Inl e \<Rightarrow> Inl e
            | Inr a \<Rightarrow>
                (case reserve_end n end_node_r L (a AND NOT used_mask) of
                   None \<Rightarrow> Inr None
                 | Some allowed \<Rightarrow>
                     (case bits_loop allowed [] of
                        None \<Rightarrow> Inl NonTermination
                      | Some cs \<Rightarrow>
                          (case sorted_by
                                  (\<lambda>c. case getitem adj_r c of
                                         Inl e \<Rightarrow> Inl e
                                       | Inr b \<Rightarrow> Inr (bin_count1 (b AND NOT used_mask)))
                                  cs of
                             Inl e \<Rightarrow> Inl e
                           | Inr cs' \<Rightarrow> Inr (Some cs'))))))"

text \<open>
  \<^verbatim>\<open>path[-1]\<close> and \<^verbatim>\<open>path.pop()\<close>, which raise on an empty list.
\<close>

definition last_item :: "'a list \<Rightarrow> error + 'a" where
  "last_item xs = (if xs = [] then Inl IndexError else Inr (last xs))"

definition pop :: "'a list \<Rightarrow> error + 'a list" where
  "pop xs = (if xs = [] then Inl IndexError else Inr (butlast xs))"

text \<open>
  \<^verbatim>\<open>solve\<close>, lines 111 to 151, a generator that shares the variables
  \<^verbatim>\<open>path\<close> and \<^verbatim>\<open>used_mask\<close> of the enclosing call with all its
  recursive calls.  The model passes this state in and returns it: \<open>solve\<close> maps the
  state at entry to what a full consumption of the generator yields, how it ends
  (\<open>None\<close> for a normal end, \<open>Some err\<close> for a run that raises or hangs after the
  yields) and the state it leaves.  \<open>visit\<close> is the \<^verbatim>\<open>for\<close> loop of lines 144 to
  151 over the candidates still to visit: the push, the recursive
  \<^verbatim>\<open>yield from\<close>, then the undo on the state the recursive call has left.

  Every \<^verbatim>\<open>yield from solve()\<close> of line 149 runs a new frame of \<^verbatim>\<open>solve\<close>
  inside the current one, so a path of \<open>L\<close> nodes is held by \<open>L + 1\<close> nested frames,
  and the interpreter raises \<^verbatim>\<open>RecursionError\<close> when calls nest deeper than its
  recursion limit (\<^verbatim>\<open>sys.getrecursionlimit()\<close>, 1000 unless changed) allows.
  The first argument \<open>depth\<close> is the number of frames of \<^verbatim>\<open>solve\<close> that can
  be nested before that happens: what the recursion limit leaves, less the nesting of
  the caller and the few levels that the frames around \<^verbatim>\<open>solve\<close> and the calls
  inside a frame take (built-in functions and the key function of line 142, whose
  nesting does not grow with the input).  The frame after the last one that fits
  raises \<^verbatim>\<open>RecursionError\<close>; the error leaves through the frames around it at
  line 149, before their undo of lines 150 and 151.
\<close>

fun solve ::
  "nat \<Rightarrow> nat \<Rightarrow> int list \<Rightarrow> nat option \<Rightarrow> nat option \<Rightarrow> nat list \<times> int \<Rightarrow>
     (nat list list \<times> error option) \<times> (nat list \<times> int)"
and visit ::
  "nat \<Rightarrow> nat \<Rightarrow> int list \<Rightarrow> nat option \<Rightarrow> nat option \<Rightarrow> nat list \<Rightarrow> nat list \<times> int \<Rightarrow>
     (nat list list \<times> error option) \<times> (nat list \<times> int)"
where
  "solve 0 n adj_r start_node_r end_node_r st = (([], Some RecursionError), st)"
| "solve (Suc depth) n adj_r start_node_r end_node_r (path, used_mask) =
     (if length path = n
      then
        (case end_node_r of
           None \<Rightarrow> (([path], None), (path, used_mask))
         | Some e \<Rightarrow>
             (case last_item path of
                Inl err \<Rightarrow> (([], Some err), (path, used_mask))
              | Inr l \<Rightarrow> ((if l = e then [path] else [], None), (path, used_mask))))
      else
        (case candidates n adj_r start_node_r end_node_r path used_mask of
           Inl err \<Rightarrow> (([], Some err), (path, used_mask))
         | Inr None \<Rightarrow> (([], None), (path, used_mask))
         | Inr (Some cs) \<Rightarrow> visit depth n adj_r start_node_r end_node_r cs (path, used_mask)))"
| "visit depth n adj_r start_node_r end_node_r [] st = (([], None), st)"
| "visit depth n adj_r start_node_r end_node_r (c # cs) (path, used_mask) =
     (if drop_bit c used_mask AND 1 \<noteq> 0
      then visit depth n adj_r start_node_r end_node_r cs (path, used_mask)
      else
        (case solve depth n adj_r start_node_r end_node_r (path @ [c], used_mask OR push_bit c 1) of
           ((ys, Some err), st') \<Rightarrow> ((ys, Some err), st')
         | ((ys, None), (path', used_mask')) \<Rightarrow>
             (case pop path' of
                Inl err \<Rightarrow> ((ys, Some err), (path', used_mask' AND NOT (push_bit c 1)))
              | Inr path'' \<Rightarrow>
                  (case visit depth n adj_r start_node_r end_node_r cs
                          (path'', used_mask' AND NOT (push_bit c 1)) of
                     ((zs, r), st'') \<Rightarrow> ((ys @ zs, r), st'')))))"

text \<open>
  \<^verbatim>\<open>_backtrack_with_end\<close>, lines 97 to 153: a fresh empty path and mask for
  every call, and what the generator yields when it is consumed to its end.  \<open>depth\<close>
  is the number of frames of \<^verbatim>\<open>solve\<close> that can be nested inside it.
\<close>

definition backtrack_with_end ::
  "nat \<Rightarrow> nat \<Rightarrow> int list \<Rightarrow> nat option \<Rightarrow> nat option \<Rightarrow> nat list list \<times> error option"
where
  "backtrack_with_end depth n adj_r start_node_r end_node_r =
     fst (solve depth n adj_r start_node_r end_node_r ([], 0))"

section \<open>The generator of valid setlists\<close>

text \<open>Line 62: the dictionary from an original index to its rank.\<close>

definition rank_dict :: "nat list \<Rightarrow> (nat \<rightharpoonup> nat)" where
  "rank_dict ranked_indices =
     fold (\<lambda>(r, orig) d. d(orig \<mapsto> r)) (enumerate 0 ranked_indices) Map.empty"

text \<open>
  Lines 67 to 73: \<open>reindex_mask\<close> is the inner loop over \<^verbatim>\<open>j\<close> with the mask
  \<^verbatim>\<open>m\<close> built so far, \<open>reindex_loop\<close> the outer loop over \<^verbatim>\<open>i\<close> with the
  list \<^verbatim>\<open>adj_r\<close>.
\<close>

fun reindex_mask :: "(nat \<rightharpoonup> nat) \<Rightarrow> int \<Rightarrow> nat list \<Rightarrow> int \<Rightarrow> error + int" where
  "reindex_mask idx_to_rank original_mask [] m = Inr m"
| "reindex_mask idx_to_rank original_mask (j # js) m =
     (if drop_bit j original_mask AND 1 \<noteq> 0
      then
        (case lookup idx_to_rank j of
           Inl e \<Rightarrow> Inl e
         | Inr r \<Rightarrow> reindex_mask idx_to_rank original_mask js (m OR push_bit r 1))
      else reindex_mask idx_to_rank original_mask js m)"

fun reindex_loop ::
  "int list \<Rightarrow> (nat \<rightharpoonup> nat) \<Rightarrow> nat \<Rightarrow> nat list \<Rightarrow> int list \<Rightarrow> error + int list"
where
  "reindex_loop masks idx_to_rank n [] adj_r = Inr adj_r"
| "reindex_loop masks idx_to_rank n (i # is) adj_r =
     (case getitem masks i of
        Inl e \<Rightarrow> Inl e
      | Inr original_mask \<Rightarrow>
          (case reindex_mask idx_to_rank original_mask [0..<n] 0 of
             Inl e \<Rightarrow> Inl e
           | Inr m \<Rightarrow>
               (case lookup idx_to_rank i of
                  Inl e \<Rightarrow> Inl e
                | Inr r \<Rightarrow>
                    (case setitem adj_r r m of
                       Inl e \<Rightarrow> Inl e
                     | Inr adj_r' \<Rightarrow> reindex_loop masks idx_to_rank n is adj_r'))))"

text \<open>
  Lines 75 and 76:
  \<^verbatim>\<open>idx_to_rank[self.team_to_idx[team]] if team else None\<close>.
\<close>

definition node_of :: "solver \<Rightarrow> (nat \<rightharpoonup> nat) \<Rightarrow> string option \<Rightarrow> error + nat option" where
  "node_of self idx_to_rank team =
     (if truthy team
      then
        (case lookup (team_to_idx self) (the team) of
           Inl e \<Rightarrow> Inl e
         | Inr i \<Rightarrow> (case lookup idx_to_rank i of Inl e \<Rightarrow> Inl e | Inr r \<Rightarrow> Inr (Some r)))
      else Inr None)"

text \<open>
  Lines 57 to 76: the ranking by degree, the names and the adjacency masks in rank
  order, and the start and end nodes as ranks.
\<close>

definition prepare ::
  "solver \<Rightarrow> string option \<Rightarrow> string option \<Rightarrow>
     error + (string list \<times> int list \<times> nat option \<times> nat option)"
where
  "prepare self start_team end_team =
     (let n = team_count self
      in case sorted_by
                (\<lambda>i. case getitem (adjacency_masks self) i of
                       Inl e \<Rightarrow> Inl e
                     | Inr a \<Rightarrow> Inr (bin_count1 a))
                [0..<n] of
           Inl e \<Rightarrow> Inl e
         | Inr ranked_indices \<Rightarrow>
             (let idx_to_rank = rank_dict ranked_indices
              in case map_r (getitem (teams self)) ranked_indices of
                   Inl e \<Rightarrow> Inl e
                 | Inr teams_r \<Rightarrow>
                     (case reindex_loop (adjacency_masks self) idx_to_rank n [0..<n]
                             (replicate n 0) of
                        Inl e \<Rightarrow> Inl e
                      | Inr adj_r \<Rightarrow>
                          (case node_of self idx_to_rank start_team of
                             Inl e \<Rightarrow> Inl e
                           | Inr start_node_r \<Rightarrow>
                               (case node_of self idx_to_rank end_team of
                                  Inl e \<Rightarrow> Inl e
                                | Inr end_node_r \<Rightarrow>
                                    Inr (teams_r, adj_r, start_node_r, end_node_r))))))"

text \<open>
  Lines 78 to 95: the loop over the paths of the search.  Its arguments are the paths
  that the search still yields, how the search ends after them, and
  \<^verbatim>\<open>produced\<close>.  The limit is tested when the next path has been obtained
  (line 80), so the end of the search is reached only if the limit has not cut the
  loop before.  The \<^verbatim>\<open>print\<close> of the debug mode is not part of what is yielded
  and is left out.
\<close>

fun produce ::
  "solver \<Rightarrow> int option \<Rightarrow> string list \<Rightarrow> nat list list \<Rightarrow> error option \<Rightarrow> int \<Rightarrow>
     string list list \<times> error option"
where
  "produce self limit teams_r [] fin produced = ([], fin)"
| "produce self limit teams_r (path_indices # rest) fin produced =
     (if limit \<noteq> None \<and> produced \<ge> the limit then ([], None)
      else
        (case map_r (getitem teams_r) path_indices of
           Inl e \<Rightarrow> ([], Some e)
         | Inr seq \<Rightarrow>
             (case sequence_is_valid self seq of
                Inl e \<Rightarrow> ([], Some e)
              | Inr (ok, conflict) \<Rightarrow>
                  if \<not> ok then produce self limit teams_r rest fin produced
                  else
                    (case produce self limit teams_r rest fin (produced + 1) of
                       (out, r) \<Rightarrow> (seq # out, r)))))"

text \<open>
  \<^verbatim>\<open>generate_valid_setlists\<close>, lines 41 to 95, as what a consumer that reads the
  generator to its end receives: the setlists yielded, in order, and then \<open>None\<close>
  for a normal end or \<open>Some err\<close> for the error raised.  The body of a Python generator
  runs at the first \<^verbatim>\<open>next\<close>, so an error of lines 52 to 76 comes with no
  setlist before it.

  The first argument is not an argument of the Python method: it is the \<open>depth\<close> of
  the search above, which the interpreter's recursion limit and the nesting of the
  caller determine.  The other calls of the program (the key function of line 60,
  \<^verbatim>\<open>_sequence_is_valid\<close>, \<^verbatim>\<open>_build_compatibility_graph\<close>, the
  constructors of the exceptions) nest to a depth that does not depend on the input,
  and the caller is taken to leave room for them.
\<close>

definition generate_valid_setlists ::
  "nat \<Rightarrow> solver \<Rightarrow> int option \<Rightarrow> string option \<Rightarrow> string option \<Rightarrow> bool \<Rightarrow>
     string list list \<times> error option"
where
  "generate_valid_setlists depth self limit start_team end_team debug =
     (if truthy start_team \<and> team_to_idx self (the start_team) = None
      then ([], Some (StartNotFound (the start_team)))
      else if truthy end_team \<and> team_to_idx self (the end_team) = None
      then ([], Some (EndNotFound (the end_team)))
      else
        (case prepare self start_team end_team of
           Inl e \<Rightarrow> ([], Some e)
         | Inr (teams_r, adj_r, start_node_r, end_node_r) \<Rightarrow>
             (case backtrack_with_end depth (team_count self) adj_r start_node_r end_node_r of
                (paths, fin) \<Rightarrow> produce self limit teams_r paths fin 0)))"

section \<open>Inputs of the examples\<close>

text \<open>
  The example of the specification: teams \<open>a\<close> and \<open>c\<close> share the member
  \<open>x\<close>, team \<open>b\<close> has the member \<open>y\<close> alone.
\<close>

definition scenario_teams :: "(string \<times> string set) list" where
  "scenario_teams = [(''a'', {''x''}), (''b'', {''y''}), (''c'', {''x''})]"

text \<open>Two teams, one of them named by the empty string.\<close>

definition empty_name_teams :: "(string \<times> string set) list" where
  "empty_name_teams = [('''', {''x''}), (''b'', {''y''})]"

text \<open>The same team names and the same conflicts as the example, with other members.\<close>

definition same_graph_teams :: "(string \<times> string set) list" where
  "same_graph_teams = [(''a'', {''p'', ''q''}), (''b'', {''r''}), (''c'', {''q''})]"

text \<open>The masks of the complete graph on four nodes.\<close>

definition complete4 :: "int list" where
  "complete4 = [14, 13, 11, 7]"

section \<open>Invariants\<close>

text \<open>
  The member set that a lookup in \<^verbatim>\<open>teams_to_members\<close> gives for the team at an
  index, and the invariant that \<^verbatim>\<open>__init__\<close> establishes: at least one team,
  one mask per team, masks that are non-negative with bits below the number of teams,
  every team a key of \<^verbatim>\<open>teams_to_members\<close> and of \<^verbatim>\<open>team_to_idx\<close>, and
  \<^verbatim>\<open>team_to_idx\<close> mapping a name to a position that holds it.
\<close>

definition members_at :: "solver \<Rightarrow> nat \<Rightarrow> string set" where
  "members_at self i = the (map_of (teams_to_members self) (teams self ! i))"

definition solver_ok :: "solver \<Rightarrow> bool" where
  "solver_ok self \<longleftrightarrow>
     0 < team_count self \<and> length (teams self) = team_count self \<and>
     length (adjacency_masks self) = team_count self \<and>
     (\<forall>a \<in> set (adjacency_masks self). 0 \<le> a \<and> a < 2 ^ team_count self) \<and>
     (\<forall>t \<in> set (teams self). map_of (teams_to_members self) t \<noteq> None) \<and>
     (\<forall>t \<in> set (teams self). team_to_idx self t \<noteq> None) \<and>
     (\<forall>t i. team_to_idx self t = Some i \<longrightarrow> i < team_count self \<and> teams self ! i = t)"

text \<open>
  The graph that the search receives: \<open>n\<close> masks, each non-negative and below
  \<open>2 ^ n\<close> (its bits are nodes), and a start or end node, if given, below \<open>n\<close>.
\<close>

definition graph_ok :: "nat \<Rightarrow> int list \<Rightarrow> bool" where
  "graph_ok n adj_r \<longleftrightarrow> length adj_r = n \<and> (\<forall>a \<in> set adj_r. 0 \<le> a \<and> a < 2 ^ n)"

definition node_ok :: "nat \<Rightarrow> nat option \<Rightarrow> bool" where
  "node_ok n node = (case node of None \<Rightarrow> True | Some v \<Rightarrow> v < n)"

text \<open>
  The state of a frame of the search: the path has distinct nodes,
  \<^verbatim>\<open>used_mask\<close> has exactly their bits, and the path begins with the start node
  if there is one.  A complete path: a permutation of the nodes that begins with the
  start node and ends with the end node, where these are given.
\<close>

definition state_ok :: "nat \<Rightarrow> nat option \<Rightarrow> nat list \<Rightarrow> int \<Rightarrow> bool" where
  "state_ok n start_node_r path used_mask \<longleftrightarrow>
     distinct path \<and> (\<forall>c \<in> set path. c < n) \<and> (\<forall>c. bit used_mask c \<longleftrightarrow> c \<in> set path) \<and>
     (case start_node_r of None \<Rightarrow> True | Some s \<Rightarrow> path = [] \<or> hd path = s)"

definition path_ok :: "nat \<Rightarrow> nat option \<Rightarrow> nat option \<Rightarrow> nat list \<Rightarrow> bool" where
  "path_ok n start_node_r end_node_r p \<longleftrightarrow>
     length p = n \<and> distinct p \<and> (\<forall>c \<in> set p. c < n) \<and>
     (case start_node_r of None \<Rightarrow> True | Some s \<Rightarrow> p = [] \<or> hd p = s) \<and>
     (case end_node_r of None \<Rightarrow> True | Some e \<Rightarrow> p \<noteq> [] \<and> last p = e)"

text \<open>Consecutive nodes of a path are adjacent in the graph.\<close>

definition chain :: "int list \<Rightarrow> nat list \<Rightarrow> bool" where
  "chain adj_r p \<longleftrightarrow> (\<forall>i. Suc i < length p \<longrightarrow> bit (adj_r ! (p ! i)) (p ! Suc i))"

section \<open>The bit loop returns the set bits of a non-negative mask, lowest first\<close>

lemma odd_and_minus: "odd (x::int) \<Longrightarrow> x AND - x = 1"
proof (rule bit_eqI)
  fix i assume o: "odd x"
  have h: "(- x) div 2 = NOT (x div 2)" using o
    by (simp add: not_int_def) presburger
  show "bit (x AND - x) i = bit (1::int) i"
  proof (cases i)
    case 0
    then show ?thesis using o by (simp add: bit_0 even_and_iff)
  next
    case (Suc j)
    have "bit (x AND - x) (Suc j) = (bit x (Suc j) \<and> bit (- x) (Suc j))"
      by (simp only: bit_and_iff)
    also have "\<dots> = (bit (x div 2) j \<and> bit ((- x) div 2) j)"
      by (simp only: bit_Suc)
    also have "\<dots> = False" by (simp add: h bit_not_int_iff)
    finally show ?thesis using Suc by (simp add: bit_1_iff)
  qed
qed

lemma even_and_minus: "even (x::int) \<Longrightarrow> x AND - x = 2 * ((x div 2) AND - (x div 2))"
proof -
  assume e: "even x"
  then obtain y where y: "x = 2 * y" by (auto elim: evenE)
  have "push_bit 1 y AND push_bit 1 (- y) = push_bit 1 (y AND - y)" by (simp only: push_bit_and)
  then have "2 * y AND - (2 * y) = 2 * (y AND - y)" by (simp add: push_bit_eq_mult mult.commute)
  then show ?thesis using y by simp
qed

lemma lowest_bit_and_minus:
  "bit (x::int) k \<Longrightarrow> (\<forall>i<k. \<not> bit x i) \<Longrightarrow> x AND - x = 2 ^ k"
proof (induction k arbitrary: x)
  case 0
  then show ?case by (simp add: odd_and_minus bit_0)
next
  case (Suc k)
  have e: "even x" using Suc.prems(2) by (auto simp: bit_0)
  have "bit (x div 2) k" using Suc.prems(1) by (simp add: bit_Suc)
  moreover have "\<forall>i<k. \<not> bit (x div 2) i" using Suc.prems(2) by (auto simp: bit_Suc[symmetric])
  ultimately have "(x div 2) AND - (x div 2) = 2 ^ k" by (rule Suc.IH)
  then show ?case using even_and_minus[OF e] by simp
qed

lemma nat_bit_length_pow2: "nat_bit_length (2 ^ k) = Suc k"
  by (induction k) (simp_all add: nat_bit_length.simps[of "2 * _"] nat_bit_length.simps[of 1] nat_bit_length.simps[of 0] nat_bit_length.simps[of "Suc 0"])

lemma bit_length_pow2: "bit_length (2 ^ k) = Suc k"
  by (simp add: bit_length_def nat_bit_length_pow2 nat_power_eq)

lemma bits_loop_nonneg:
  assumes "bits_loop x acc = Some r" shows "0 \<le> x"
proof (rule bits_loop.raw_induct[where xa = "(x, acc)" and y = r and P = "\<lambda>x acc r. 0 \<le> x", unfolded prod.case, OF _ assms])
  fix f x acc r
  assume IH: "\<And>x acc r. f x acc = Some r \<Longrightarrow> 0 \<le> (x::int)"
    and eq: "(if x = 0 then Some acc else f (x XOR (x AND - x)) (acc @ [bit_length (x AND - x) - 1])) = Some (r::nat list)"
  show "0 \<le> x"
  proof (cases "x = 0")
    case True then show ?thesis by simp
  next
    case False
    with eq have "f (x XOR (x AND - x)) (acc @ [bit_length (x AND - x) - 1]) = Some r"
      by simp
    then have "0 \<le> x XOR (x AND - x)" by (rule IH)
    then show ?thesis by (cases "0 \<le> x") auto
  qed
qed

lemma bit_nonneg_le: "0 \<le> (x::int) \<Longrightarrow> bit x i \<Longrightarrow> 2 ^ i \<le> x"
  by (rule ccontr) (simp add: bit_iff_odd not_le div_pos_pos_trivial)

lemma finite_bits_nonneg: "0 \<le> (x::int) \<Longrightarrow> finite {i. bit x i}"
proof (rule finite_subset)
  assume x: "0 \<le> x"
  show "{i. bit x i} \<subseteq> {..nat x}"
  proof
    fix i assume "i \<in> {i. bit x i}"
    then have "2 ^ i \<le> x" using x by (simp add: bit_nonneg_le)
    moreover have "int i < 2 ^ i"
    proof -
      have "int i < int (2 ^ i)" by (simp only: of_nat_less_iff less_exp)
      then show ?thesis by simp
    qed
    ultimately have "int i < x" by linarith
    then show "i \<in> {..nat x}" by simp
  qed
qed simp

lemma bits_zero: "{i. bit (0::int) i} = {}" by simp

lemma bits_loop_pos:
  "0 \<le> x \<Longrightarrow> bits_loop x acc = Some (acc @ sorted_list_of_set {i. bit x i})"
proof (induction "nat x" arbitrary: x acc rule: less_induct)
  case less
  show ?case
  proof (cases "x = 0")
    case True
    then show ?thesis by (simp add: bits_loop.simps bits_zero del: bit_0_eq)
  next
    case False
    let ?S = "{i. bit x i}"
    have fin: "finite ?S" using less.prems by (rule finite_bits_nonneg)
    have ne: "?S \<noteq> {}" using False by (auto simp: bit_eq_iff)
    define k where "k = Min ?S"
    have kin: "bit x k" using Min_in[OF fin ne] by (simp add: k_def)
    have kmin: "\<forall>i<k. \<not> bit x i" using Min_le[OF fin] unfolding k_def
      by (metis mem_Collect_eq not_less)
    have lsb: "x AND - x = 2 ^ k" using lowest_bit_and_minus[OF kin kmin] .
    define x' where "x' = x XOR 2 ^ k"
    have bits': "{i. bit x' i} = ?S - {k}"
      by (auto simp: x'_def bit_xor_iff bit_exp_iff kin)
    have x'nn: "0 \<le> x'" using less.prems by (simp add: x'_def)
    have "x' < x"
    proof -
      have "NOT x AND 2 ^ k = 0"
        by (rule bit_eqI) (auto simp: bit_and_iff bit_not_int_iff bit_exp_iff kin)
      then have "x' = x - 2 ^ k" unfolding x'_def
        by (simp add: disjunctive_diff_eq_xor[symmetric] disjunctive_diff_eq_and_not)
      then show ?thesis by simp
    qed
    then have "nat x' < nat x" using x'nn by simp
    from less.hyps[OF this x'nn]
    have "bits_loop x' (acc @ [k]) = Some ((acc @ [k]) @ sorted_list_of_set {i. bit x' i})" .
    moreover have "sorted_list_of_set ?S = k # sorted_list_of_set (?S - {k})"
      unfolding k_def using fin ne by (rule sorted_list_of_set_nonempty)
    ultimately show ?thesis using False
      by (subst bits_loop.simps) (simp add: lsb bit_length_pow2 x'_def[symmetric] bits')
  qed
qed

lemma bits_loop_Some_iff:
  "bits_loop x acc = Some r \<longleftrightarrow> 0 \<le> x \<and> r = acc @ sorted_list_of_set {i. bit x i}"
  using bits_loop_nonneg bits_loop_pos by fastforce

section \<open>A frame that ends normally leaves the state it was given\<close>

text \<open>
  The \<^verbatim>\<open>for\<close> loop undoes each push after the recursive call, so a frame that
  ends normally leaves \<^verbatim>\<open>path\<close> and \<^verbatim>\<open>used_mask\<close> as it found them.
  A frame that ends with an error leaves what had been pushed.
\<close>

lemma test_bit_iff: "(drop_bit c (x::int) AND 1 \<noteq> 0) = bit x c"
  by (simp add: bit_iff_odd_drop_bit and_one_eq odd_iff_mod_2_eq_one)

lemma map_r_length: "map_r f xs = Inr ys \<Longrightarrow> length ys = length xs"
  by (induction xs arbitrary: ys) (auto split: sum.splits)

lemma sorted_by_set: "sorted_by k xs = Inr ys \<Longrightarrow> set ys = set xs"
proof -
  assume a: "sorted_by k xs = Inr ys"
  then obtain ks where ks: "map_r k xs = Inr ks" and ys: "ys = map snd (sort_key fst (zip ks xs))"
    by (auto simp: sorted_by_def split: sum.splits)
  have "length ks = length xs" using ks by (rule map_r_length)
  then have "map snd (zip ks xs) = xs" by simp
  then have "snd ` set (zip ks xs) = set xs" by (metis set_map)
  then show ?thesis by (simp add: ys)
qed

lemma solve_restores:
  "solve depth n adj_r s e st = ((ys, None), st') \<Longrightarrow> st' = st"
  "visit depth n adj_r s e cs st = ((ys, None), st') \<Longrightarrow> st' = st"
proof (induction depth n adj_r s e st and depth n adj_r s e cs st arbitrary: ys st' and ys st'
        rule: solve_visit.induct)
  case (1 n adj_r start_node_r end_node_r st)
  then show ?case by simp
next
  case (2 depth n adj_r start_node_r end_node_r path used_mask)
  from "2.prems" "2.IH" show ?case
    by (auto split: if_splits option.splits sum.splits)
next
  case (3 depth n adj_r start_node_r end_node_r st)
  then show ?case by simp
next
  case (4 depth n adj_r start_node_r end_node_r c cs path used_mask)
  show ?case
  proof (cases "drop_bit c used_mask AND 1 \<noteq> 0")
    case True
    with "4.prems" "4.IH"(1) show ?thesis by simp
  next
    case False
    then have nb: "\<not> bit used_mask c" by (simp add: test_bit_iff)
    obtain zs r p u where sv: "solve depth n adj_r start_node_r end_node_r (path @ [c], used_mask OR push_bit c 1) = ((zs, r), (p, u))"
      by (metis surj_pair)
    with "4.prems" False have r: "r = None"
      by (auto split: option.splits sum.splits prod.splits)
    from "4.IH"(2)[OF False sv[unfolded r]] have pu: "p = path @ [c]" "u = used_mask OR push_bit c 1"
      by simp_all
    have u': "u AND NOT (push_bit c 1) = used_mask"
      by (rule bit_eqI) (use nb in \<open>auto simp: pu bit_and_iff bit_or_iff bit_not_int_iff bit_exp_iff\<close>)
    have pp: "pop p = Inr path" by (simp add: pop_def pu)
    obtain ws r' st'' where vv: "visit depth n adj_r start_node_r end_node_r cs (path, used_mask) = ((ws, r'), st'')"
      by (metis surj_pair)
    with "4.prems" False sv r u' pp have "r' = None" "st' = st''"
      by auto
    moreover have "st'' = (path, used_mask)"
      using "4.IH"(3)[OF False sv[symmetric, unfolded r] refl refl refl, of path] pp u' vv \<open>r' = None\<close>
      by auto
    ultimately show ?thesis by simp
  qed
qed

section \<open>What the search yields\<close>

text \<open>
  The search runs on a graph of \<open>n\<close> nodes whose masks are non-negative and have
  bits below \<open>n\<close> only, with start and end nodes below \<open>n\<close>.  In every frame the
  path is a list of distinct nodes, \<^verbatim>\<open>used_mask\<close> has exactly their bits, and
  the path begins with the start node if there is one.  Then every path the search
  yields is a permutation of the nodes that extends the current path and ends with the
  end node if there is one, and the search ends normally or with
  \<^verbatim>\<open>RecursionError\<close>: normally whenever there is room for one frame per node
  still to place and one more for the frame that yields.
\<close>

declare solve.simps [simp del] visit.simps [simp del]

lemma state_ok_length: "state_ok n start_node_r path used_mask \<Longrightarrow> length path \<le> n"
proof -
  assume "state_ok n start_node_r path used_mask"
  then have d: "distinct path" and b: "set path \<subseteq> {..<n}" by (auto simp: state_ok_def)
  have "length path = card (set path)" using d by (simp add: distinct_card)
  also have "\<dots> \<le> card {..<n}" using b by (intro card_mono) simp_all
  finally show ?thesis by simp
qed

lemma graph_ok_bit: "graph_ok n adj_r \<Longrightarrow> a \<in> set adj_r \<Longrightarrow> bit a c \<Longrightarrow> c < n"
proof -
  assume g: "graph_ok n adj_r" and a: "a \<in> set adj_r" and b: "bit a c"
  from g a have "0 \<le> a" "a < 2 ^ n" by (auto simp: graph_ok_def)
  with b have "(2::int) ^ c < 2 ^ n" using bit_nonneg_le[of a c] by linarith
  then show ?thesis by simp
qed

lemma map_r_ok:
  "(\<forall>x \<in> set xs. \<exists>y. f x = Inr y) \<Longrightarrow> \<exists>ys. map_r f xs = Inr ys"
  by (induction xs) (auto split: sum.splits)

lemma sorted_by_ok:
  assumes "\<forall>x \<in> set xs. \<exists>y. k x = Inr y"
  shows "\<exists>ys. sorted_by k xs = Inr ys"
  using map_r_ok[OF assms] by (auto simp: sorted_by_def)

lemma reserve_end_nonneg:
  "reserve_end n end_node_r L allowed = Some m \<Longrightarrow> 0 \<le> allowed \<Longrightarrow> 0 \<le> m"
  by (auto simp: reserve_end_def Let_def split: option.splits if_splits)

lemma reserve_end_bits:
  "reserve_end n end_node_r L allowed = Some m \<Longrightarrow> bit m c \<Longrightarrow>
     bit allowed c \<or> end_node_r = Some c"
  by (auto simp: reserve_end_def Let_def bit_and_iff bit_exp_iff split: option.splits if_splits)

lemma candidates_ok:
  assumes g: "graph_ok n adj_r" and s: "node_ok n start_node_r" and e: "node_ok n end_node_r"
    and st: "state_ok n start_node_r path used_mask"
  shows "\<exists>r. candidates n adj_r start_node_r end_node_r path used_mask = Inr r \<and>
           (\<forall>cs. r = Some cs \<longrightarrow>
              (\<forall>c \<in> set cs. c < n \<and> (path = [] \<longrightarrow> (\<forall>v. start_node_r = Some v \<longrightarrow> c = v))))"
proof (cases "path = []")
  case True
  then show ?thesis using s by (auto simp: candidates_def node_ok_def split: option.splits)
next
  case False
  then have "last path \<in> set path" by simp
  then have l: "last path < length adj_r" using st g by (auto simp: state_ok_def graph_ok_def)
  define a where "a = adj_r ! last path"
  have ga: "getitem adj_r (last path) = Inr a" using l by (simp add: getitem_def a_def)
  have ain: "a \<in> set adj_r" using l by (simp add: a_def)
  then have a0: "0 \<le> a AND NOT used_mask" using g by (auto simp: graph_ok_def)
  show ?thesis
  proof (cases "reserve_end n end_node_r (length path) (a AND NOT used_mask)")
    case None
    then show ?thesis using False ga by (simp add: candidates_def)
  next
    case (Some m)
    then have m0: "0 \<le> m" using a0 by (rule reserve_end_nonneg)
    have bits: "c < n" if "bit m c" for c
    proof -
      from reserve_end_bits[OF Some that] show ?thesis
      proof
        assume "bit (a AND NOT used_mask) c"
        then have "bit a c" by (simp add: bit_and_iff)
        with g ain show ?thesis by (rule graph_ok_bit)
      next
        assume "end_node_r = Some c" then show ?thesis using e by (simp add: node_ok_def)
      qed
    qed
    define cs0 where "cs0 = sorted_list_of_set {i. bit m i}"
    have b: "bits_loop m [] = Some cs0" using m0 by (simp add: bits_loop_pos cs0_def)
    have cs0: "set cs0 = {i. bit m i}" using m0 by (simp add: cs0_def finite_bits_nonneg)
    have "\<forall>c \<in> set cs0. \<exists>y. (case getitem adj_r c of Inl e \<Rightarrow> Inl e
                 | Inr b \<Rightarrow> Inr (bin_count1 (b AND NOT used_mask))) = Inr y"
      using bits g by (auto simp: cs0 getitem_def graph_ok_def)
    from sorted_by_ok[OF this] obtain cs where
      cs: "sorted_by (\<lambda>c. case getitem adj_r c of Inl e \<Rightarrow> Inl e
                 | Inr b \<Rightarrow> Inr (bin_count1 (b AND NOT used_mask))) cs0 = Inr cs" by blast
    then have "set cs = set cs0" by (rule sorted_by_set)
    then show ?thesis using False ga Some b cs bits by (auto simp: candidates_def cs0)
  qed
qed

lemma state_ok_push:
  assumes st: "state_ok n start_node_r path used_mask" and c: "c < n" and nb: "\<not> bit used_mask c"
    and hd: "path = [] \<longrightarrow> (\<forall>v. start_node_r = Some v \<longrightarrow> c = v)"
  shows "state_ok n start_node_r (path @ [c]) (used_mask OR push_bit c 1)"
  using assms by (cases path) (auto simp: state_ok_def bit_or_iff bit_exp_iff split: option.splits)

lemma clear_pushed_bit:
  "\<not> bit (u::int) c \<Longrightarrow> (u OR push_bit c 1) AND NOT (push_bit c 1) = u"
  "\<not> bit (u::int) c \<Longrightarrow> (u OR 2 ^ c) AND NOT (2 ^ c) = u"
  by (rule bit_eqI; auto simp: bit_and_iff bit_or_iff bit_not_int_iff bit_exp_iff)+

lemma solve_visit_ok:
  "graph_ok n adj_r \<Longrightarrow> node_ok n start_node_r \<Longrightarrow> node_ok n end_node_r \<Longrightarrow>
   state_ok n start_node_r (fst st) (snd st) \<Longrightarrow>
     \<exists>ys r st'. solve depth n adj_r start_node_r end_node_r st = ((ys, r), st') \<and>
       (r = None \<or> r = Some RecursionError) \<and>
       (n < depth + length (fst st) \<longrightarrow> r = None) \<and>
       (\<forall>p \<in> set ys. path_ok n start_node_r end_node_r p \<and> take (length (fst st)) p = fst st)"
  "graph_ok n adj_r \<Longrightarrow> node_ok n start_node_r \<Longrightarrow> node_ok n end_node_r \<Longrightarrow>
   state_ok n start_node_r (fst st) (snd st) \<Longrightarrow>
   (\<forall>c \<in> set cs. c < n \<and> (fst st = [] \<longrightarrow> (\<forall>v. start_node_r = Some v \<longrightarrow> c = v))) \<Longrightarrow>
     \<exists>ys r st'. visit depth n adj_r start_node_r end_node_r cs st = ((ys, r), st') \<and>
       (r = None \<or> r = Some RecursionError) \<and>
       (n \<le> depth + length (fst st) \<longrightarrow> r = None) \<and>
       (\<forall>p \<in> set ys. path_ok n start_node_r end_node_r p \<and> take (length (fst st)) p = fst st)"
proof (induction depth n adj_r start_node_r end_node_r st and depth n adj_r start_node_r end_node_r cs st
        rule: solve_visit.induct)
  case (1 n adj_r start_node_r end_node_r st)
  have "length (fst st) \<le> n" using "1.prems"(4) by (rule state_ok_length)
  then show ?case by (simp add: solve.simps(1))
next
  case (2 depth n adj_r start_node_r end_node_r path used_mask)
  have st: "state_ok n start_node_r path used_mask" using "2.prems"(4) by simp
  note eq = solve.simps(2)[of depth n adj_r start_node_r end_node_r path used_mask]
  show ?case
  proof (cases "length path = n")
    case True
    have pe: "path \<noteq> []" if "end_node_r = Some e" for e
      using "2.prems"(3) True that by (auto simp: node_ok_def)
    show ?thesis using True st pe
      by (auto simp: eq path_ok_def state_ok_def last_item_def split: option.splits)
  next
    case False
    from candidates_ok[OF "2.prems"(1,2,3) st] obtain r where
      r: "candidates n adj_r start_node_r end_node_r path used_mask = Inr r"
      and rc: "\<forall>cs. r = Some cs \<longrightarrow>
              (\<forall>c \<in> set cs. c < n \<and> (path = [] \<longrightarrow> (\<forall>v. start_node_r = Some v \<longrightarrow> c = v)))"
      by blast
    show ?thesis
    proof (cases r)
      case None
      then show ?thesis using False r by (simp add: eq)
    next
      case (Some cs)
      have "\<forall>c \<in> set cs. c < n \<and> (fst (path, used_mask) = [] \<longrightarrow> (\<forall>v. start_node_r = Some v \<longrightarrow> c = v))"
        using rc Some by simp
      from "2.IH"[OF False r Some "2.prems"(1,2,3,4) this]
      obtain ys q st' where
        vv: "visit depth n adj_r start_node_r end_node_r cs (path, used_mask) = ((ys, q), st')"
        and q: "q = None \<or> q = Some RecursionError"
        and qn: "n \<le> depth + length path \<longrightarrow> q = None"
        and ys: "\<forall>p \<in> set ys. path_ok n start_node_r end_node_r p \<and> take (length path) p = path"
        by auto
      have "solve (Suc depth) n adj_r start_node_r end_node_r (path, used_mask) = ((ys, q), st')"
        using False r Some vv by (simp add: eq)
      moreover have "n < Suc depth + length path \<longrightarrow> q = None" using qn by simp
      ultimately show ?thesis using q ys by simp
    qed
  qed
next
  case (3 depth n adj_r start_node_r end_node_r st)
  then show ?case by (simp add: visit.simps)
next
  case (4 depth n adj_r start_node_r end_node_r c cs path used_mask)
  have st: "state_ok n start_node_r path used_mask" using "4.prems"(4) by simp
  have cs: "\<forall>c \<in> set cs. c < n \<and> (fst (path, used_mask) = [] \<longrightarrow> (\<forall>v. start_node_r = Some v \<longrightarrow> c = v))"
    using "4.prems"(5) by simp
  note eq = visit.simps(2)[of depth n adj_r start_node_r end_node_r c cs path used_mask]
  show ?case
  proof (cases "drop_bit c used_mask AND 1 \<noteq> 0")
    case True
    from "4.IH"(1)[OF True "4.prems"(1,2,3,4) cs] show ?thesis using True
      by (simp add: eq)
  next
    case False
    then have nb: "\<not> bit used_mask c" by (simp add: test_bit_iff)
    have c: "c < n" "path = [] \<longrightarrow> (\<forall>v. start_node_r = Some v \<longrightarrow> c = v)"
      using "4.prems"(5) by simp_all
    have st': "state_ok n start_node_r (fst (path @ [c], used_mask OR push_bit c 1))
                 (snd (path @ [c], used_mask OR push_bit c 1))"
      using state_ok_push[OF st c(1) nb c(2)] by simp
    from "4.IH"(2)[OF False "4.prems"(1,2,3) st'] obtain ys q st1 where
      sv: "solve depth n adj_r start_node_r end_node_r (path @ [c], used_mask OR push_bit c 1)
             = ((ys, q), st1)"
      and q: "q = None \<or> q = Some RecursionError"
      and qn: "n < depth + Suc (length path) \<longrightarrow> q = None"
      and ys: "\<forall>p \<in> set ys. path_ok n start_node_r end_node_r p \<and> take (Suc (length path)) p = path @ [c]"
      by auto
    have "take (length path) p = path" if "take (Suc (length path)) p = path @ [c]" for p
    proof -
      have "take (length path) p = take (length path) (take (Suc (length path)) p)" by simp
      also have "\<dots> = path" by (simp only: that) simp
      finally show ?thesis .
    qed
    with ys have ys': "\<forall>p \<in> set ys. path_ok n start_node_r end_node_r p \<and> take (length path) p = path"
      by blast
    show ?thesis
    proof (cases q)
      case (Some err)
      with q have err: "q = Some RecursionError" by simp
      then have "visit depth n adj_r start_node_r end_node_r (c # cs) (path, used_mask)
                   = ((ys, Some RecursionError), st1)"
        using False sv by (simp add: eq)
      moreover have "\<not> n \<le> depth + length path" using qn err by auto
      ultimately show ?thesis using ys' by simp
    next
      case None
      from solve_restores(1)[OF sv[unfolded None]]
      have st1: "st1 = (path @ [c], used_mask OR push_bit c 1)" .
      have sv': "solve depth n adj_r start_node_r end_node_r (path @ [c], used_mask OR push_bit c 1)
             = ((ys, None), (path @ [c], used_mask OR push_bit c 1))"
        using sv None st1 by simp
      have st2: "state_ok n start_node_r (fst (path, (used_mask OR push_bit c 1) AND NOT (push_bit c 1)))
          (snd (path, (used_mask OR push_bit c 1) AND NOT (push_bit c 1)))"
        using st by (simp add: clear_pushed_bit[OF nb])
      have "pop (path @ [c]) = Inr path" by (simp add: pop_def)
      from "4.IH"(3)[OF False sv'[symmetric] refl refl refl this "4.prems"(1,2,3) st2] cs
      obtain zs q' st'' where
        vv: "visit depth n adj_r start_node_r end_node_r cs (path, used_mask) = ((zs, q'), st'')"
        and q': "q' = None \<or> q' = Some RecursionError"
        and qn': "n \<le> depth + length path \<longrightarrow> q' = None"
        and zs: "\<forall>p \<in> set zs. path_ok n start_node_r end_node_r p \<and> take (length path) p = path"
        by (auto simp: clear_pushed_bit[OF nb])
      have "visit depth n adj_r start_node_r end_node_r (c # cs) (path, used_mask)
              = ((ys @ zs, q'), st'')"
        using False sv' vv by (simp add: eq pop_def clear_pushed_bit[OF nb])
      then show ?thesis using q' qn' ys' zs by auto
    qed
  qed
qed

section \<open>What the constructor builds\<close>

text \<open>
  The dictionaries built by enumeration map a key to a position that holds it, the
  graph builder never fails on the keys of its own dictionary, and bit \<open>j\<close> of mask
  \<open>i\<close> says that \<open>j\<close> is another team whose members are disjoint from those of \<open>i\<close>.
\<close>

lemma lookup_Some: "d k = Some v \<Longrightarrow> lookup d k = Inr v"
  by (simp add: lookup_def)

lemma enum_dict_notin:
  "y \<notin> set xs \<Longrightarrow> fold (\<lambda>(i, x) d. d(x \<mapsto> i)) (enumerate k xs) d0 y = d0 y"
proof (induction xs arbitrary: k d0)
  case Nil
  then show ?case by simp
next
  case (Cons x xs)
  have "fold (\<lambda>(i, x) d. d(x \<mapsto> i)) (enumerate (Suc k) xs) (d0(x \<mapsto> k)) y = (d0(x \<mapsto> k)) y"
    using Cons.prems by (intro Cons.IH) simp
  with Cons.prems show ?case by (simp del: fun_upd_apply) simp
qed

lemma enum_dict_Some:
  "fold (\<lambda>(i, x) d. d(x \<mapsto> i)) (enumerate k xs) d0 y = Some i \<Longrightarrow>
     (d0 y = Some i \<and> y \<notin> set xs) \<or> (k \<le> i \<and> i < k + length xs \<and> xs ! (i - k) = y)"
proof (induction xs arbitrary: k d0)
  case Nil
  then show ?case by simp
next
  case (Cons x xs)
  from Cons.prems have "fold (\<lambda>(i, x) d. d(x \<mapsto> i)) (enumerate (Suc k) xs) (d0(x \<mapsto> k)) y = Some i"
    by (simp del: fun_upd_apply)
  from Cons.IH[OF this] show ?case
  proof
    assume a: "(d0(x \<mapsto> k)) y = Some i \<and> y \<notin> set xs"
    show ?thesis
    proof (cases "y = x")
      case True
      with a have "i = k" by simp
      with True show ?thesis by simp
    next
      case False
      with a show ?thesis by simp
    qed
  next
    assume a: "Suc k \<le> i \<and> i < Suc k + length xs \<and> xs ! (i - Suc k) = y"
    then have "(x # xs) ! (i - k) = y" by (simp add: nth_Cons')
    with a show ?thesis by simp
  qed
qed

lemma enum_dict_dom:
  "y \<in> set xs \<Longrightarrow> \<exists>i. fold (\<lambda>(i, x) d. d(x \<mapsto> i)) (enumerate k xs) d0 y = Some i"
proof (induction xs arbitrary: k d0)
  case Nil
  then show ?case by simp
next
  case (Cons x xs)
  show ?case
  proof (cases "y \<in> set xs")
    case True
    from Cons.IH[OF this] show ?thesis by (simp del: fun_upd_apply)
  next
    case False
    with Cons.prems have "y = x" by simp
    moreover have "fold (\<lambda>(i, x) d. d(x \<mapsto> i)) (enumerate (Suc k) xs) (d0(x \<mapsto> k)) y
        = (d0(x \<mapsto> k)) y"
      using False by (rule enum_dict_notin)
    ultimately show ?thesis by (simp del: fun_upd_apply) simp
  qed
qed

lemma index_dict_Some: "index_dict ts t = Some i \<Longrightarrow> i < length ts \<and> ts ! i = t"
  unfolding index_dict_def by (drule enum_dict_Some) auto

lemma index_dict_dom: "t \<in> set ts \<Longrightarrow> \<exists>i. index_dict ts t = Some i"
  unfolding index_dict_def by (rule enum_dict_dom)

lemma rank_dict_Some: "rank_dict rs j = Some r \<Longrightarrow> r < length rs \<and> rs ! r = j"
  unfolding rank_dict_def by (drule enum_dict_Some) auto

lemma rank_dict_dom: "j \<in> set rs \<Longrightarrow> \<exists>r. rank_dict rs j = Some r"
  unfolding rank_dict_def by (rule enum_dict_dom)

text \<open>The inner loop of the graph builder.\<close>

lemma mask_loop_ok:
  assumes "\<forall>t \<in> set us. map_of ttm t \<noteq> None"
  shows "\<exists>m. mask_loop ttm i members_i (enumerate k us) m0 = Inr m \<and>
           (0 \<le> m0 \<longrightarrow> 0 \<le> m) \<and>
           (\<forall>j. bit m j \<longleftrightarrow>
              bit m0 j \<or> (k \<le> j \<and> j < k + length us \<and> j \<noteq> i \<and>
                         the (map_of ttm (us ! (j - k))) \<inter> members_i = {}))"
  using assms
proof (induction us arbitrary: k m0)
  case Nil
  then show ?case by auto
next
  case (Cons u us)
  then obtain mu where mu: "map_of ttm u = Some mu" by auto
  have rest: "\<forall>t \<in> set us. map_of ttm t \<noteq> None" using Cons.prems by simp
  define m1 where "m1 = (if i = k then m0 else if mu \<inter> members_i = {} then m0 OR push_bit k 1 else m0)"
  have step: "mask_loop ttm i members_i (enumerate k (u # us)) m0
                = mask_loop ttm i members_i (enumerate (Suc k) us) m1"
    by (simp add: m1_def lookup_def mu)
  from Cons.IH[OF rest, of "Suc k" m1] obtain m where
    m: "mask_loop ttm i members_i (enumerate (Suc k) us) m1 = Inr m"
    and nn: "0 \<le> m1 \<longrightarrow> 0 \<le> m"
    and bits: "\<forall>j. bit m j \<longleftrightarrow>
              bit m1 j \<or> (Suc k \<le> j \<and> j < Suc k + length us \<and> j \<noteq> i \<and>
                         the (map_of ttm (us ! (j - Suc k))) \<inter> members_i = {})"
    by blast
  have b1: "bit m1 j \<longleftrightarrow> bit m0 j \<or> (j = k \<and> j \<noteq> i \<and> mu \<inter> members_i = {})" for j
    by (auto simp: m1_def bit_or_iff bit_exp_iff)
  have n1: "0 \<le> m0 \<longrightarrow> 0 \<le> m1" by (simp add: m1_def)
  have "bit m j \<longleftrightarrow>
              bit m0 j \<or> (k \<le> j \<and> j < k + length (u # us) \<and> j \<noteq> i \<and>
                         the (map_of ttm ((u # us) ! (j - k))) \<inter> members_i = {})" for j
  proof (cases "j = k")
    case True
    then show ?thesis using bits b1 mu by auto
  next
    case False
    then have "k \<le> j \<longleftrightarrow> Suc k \<le> j" by auto
    moreover have "Suc k \<le> j \<Longrightarrow> (u # us) ! (j - k) = us ! (j - Suc k)"
      by (simp add: Suc_diff_le)
    ultimately show ?thesis using bits b1 False by auto
  qed
  then show ?case using step m nn n1 by auto
qed

lemma adj_loop_ok:
  assumes ts: "\<forall>t \<in> set ts. map_of ttm t \<noteq> None"
    and us: "\<forall>t \<in> set us. map_of ttm t \<noteq> None"
    and len: "k + length us \<le> length adj"
  shows "\<exists>adj'. adj_loop ttm ts (enumerate k us) adj = Inr adj' \<and> length adj' = length adj \<and>
           (\<forall>i < length adj. adj' ! i =
              (if k \<le> i \<and> i < k + length us
               then projr (mask_loop ttm i (the (map_of ttm (us ! (i - k)))) (enumerate 0 ts) 0)
               else adj ! i))"
  using us len
proof (induction us arbitrary: k adj)
  case Nil
  then show ?case by auto
next
  case (Cons u us)
  then obtain mu where mu: "map_of ttm u = Some mu" by auto
  from mask_loop_ok[OF ts, of k mu 0 0] obtain m where
    m: "mask_loop ttm k mu (enumerate 0 ts) 0 = Inr m" by blast
  have kl: "k < length adj" using Cons.prems(2) by simp
  have step: "adj_loop ttm ts (enumerate k (u # us)) adj
                = adj_loop ttm ts (enumerate (Suc k) us) (adj[k := m])"
    using kl by (simp add: lookup_def mu m setitem_def)
  have rest: "\<forall>t \<in> set us. map_of ttm t \<noteq> None" using Cons.prems(1) by simp
  have len': "Suc k + length us \<le> length (adj[k := m])" using Cons.prems(2) by simp
  from Cons.IH[OF rest len'] obtain adj' where
    a: "adj_loop ttm ts (enumerate (Suc k) us) (adj[k := m]) = Inr adj'"
    and l: "length adj' = length adj"
    and v: "\<forall>i < length adj. adj' ! i =
              (if Suc k \<le> i \<and> i < Suc k + length us
               then projr (mask_loop ttm i (the (map_of ttm (us ! (i - Suc k)))) (enumerate 0 ts) 0)
               else adj[k := m] ! i)"
    by auto
  have "adj' ! i =
              (if k \<le> i \<and> i < k + length (u # us)
               then projr (mask_loop ttm i (the (map_of ttm ((u # us) ! (i - k)))) (enumerate 0 ts) 0)
               else adj ! i)" if "i < length adj" for i
  proof (cases "i = k")
    case True
    then show ?thesis using v that mu m by simp
  next
    case False
    then have "k \<le> i \<longleftrightarrow> Suc k \<le> i" by auto
    moreover have "Suc k \<le> i \<Longrightarrow> (u # us) ! (i - k) = us ! (i - Suc k)"
      by (simp add: Suc_diff_le)
    ultimately show ?thesis using v that False by auto
  qed
  then show ?case using step a l by simp
qed

lemma bits_below:
  assumes "0 \<le> (a::int)" and "\<forall>c. bit a c \<longrightarrow> c < n"
  shows "a < 2 ^ n"
proof -
  have "take_bit n a = a" using assms(2) by (intro bit_eqI) (auto simp: bit_take_bit_iff)
  moreover have "take_bit n a < 2 ^ n" by (rule take_bit_int_less_exp)
  ultimately show ?thesis by simp
qed

lemma build_compatibility_graph_ok:
  assumes ts: "\<forall>t \<in> set ts. map_of ttm t \<noteq> None"
  shows "\<exists>adj. build_compatibility_graph ttm ts (length ts) = Inr adj \<and> length adj = length ts \<and>
           (\<forall>i < length ts. 0 \<le> adj ! i \<and>
              (\<forall>j. bit (adj ! i) j \<longleftrightarrow>
                 j < length ts \<and> j \<noteq> i \<and>
                 the (map_of ttm (ts ! j)) \<inter> the (map_of ttm (ts ! i)) = {}))"
proof -
  from adj_loop_ok[OF ts ts, of 0 "replicate (length ts) 0"] obtain adj where
    a: "adj_loop ttm ts (enumerate 0 ts) (replicate (length ts) 0) = Inr adj"
    and l: "length adj = length ts"
    and v: "\<forall>i < length ts. adj ! i =
        projr (mask_loop ttm i (the (map_of ttm (ts ! i))) (enumerate 0 ts) 0)"
    by auto
  have "0 \<le> adj ! i \<and>
              (\<forall>j. bit (adj ! i) j \<longleftrightarrow>
                 j < length ts \<and> j \<noteq> i \<and>
                 the (map_of ttm (ts ! j)) \<inter> the (map_of ttm (ts ! i)) = {})"
    if i: "i < length ts" for i
  proof -
    from mask_loop_ok[OF ts, of i "the (map_of ttm (ts ! i))" 0 0] obtain m where
      m: "mask_loop ttm i (the (map_of ttm (ts ! i))) (enumerate 0 ts) 0 = Inr m"
      and nn: "0 \<le> m"
      and bits: "\<forall>j. bit m j \<longleftrightarrow> (j < length ts \<and> j \<noteq> i \<and>
                         the (map_of ttm (ts ! j)) \<inter> the (map_of ttm (ts ! i)) = {})"
      by auto
    have "adj ! i = m" using v i m by simp
    then show ?thesis using nn bits by simp
  qed
  then show ?thesis using a l by (simp add: build_compatibility_graph_def)
qed

lemma construct_Inr:
  assumes "construct tm = Inr s"
  shows "tm \<noteq> [] \<and> teams s = map fst tm \<and> team_count s = length tm \<and>
     teams_to_members s = map (\<lambda>(team, members). (team, strip ` members)) tm \<and>
     team_to_idx s = index_dict (map fst tm) \<and>
     length (adjacency_masks s) = length tm \<and>
     (\<forall>i < length tm. 0 \<le> adjacency_masks s ! i \<and>
        (\<forall>j. bit (adjacency_masks s ! i) j \<longleftrightarrow>
           j < length tm \<and> j \<noteq> i \<and> members_at s j \<inter> members_at s i = {}))"
proof -
  define ttm where "ttm = map (\<lambda>(team, members). (team, strip ` members)) tm"
  have fst: "map fst ttm = map fst tm" by (simp add: ttm_def case_prod_unfold comp_def)
  have keys: "\<forall>t \<in> set (map fst ttm). map_of ttm t \<noteq> None"
    by (simp add: map_of_eq_None_iff)
  from build_compatibility_graph_ok[OF keys] obtain adj where
    a: "build_compatibility_graph ttm (map fst ttm) (length (map fst ttm)) = Inr adj"
    and l: "length adj = length (map fst ttm)"
    and v: "\<forall>i < length (map fst ttm). 0 \<le> adj ! i \<and>
              (\<forall>j. bit (adj ! i) j \<longleftrightarrow>
                 j < length (map fst ttm) \<and> j \<noteq> i \<and>
                 the (map_of ttm (map fst ttm ! j)) \<inter> the (map_of ttm (map fst ttm ! i)) = {})"
    by blast
  from assms have ne: "tm \<noteq> []" by (auto simp: construct_def split: if_splits)
  with assms a have s: "s = \<lparr> teams_to_members = ttm, teams = map fst ttm, team_count = length (map fst ttm),
                      team_to_idx = index_dict (map fst ttm), adjacency_masks = adj \<rparr>"
    by (simp add: construct_def Let_def ttm_def[symmetric])
  show ?thesis using ne l v unfolding s members_at_def by (simp add: fst ttm_def[symmetric])
qed

lemma construct_nonempty: "tm \<noteq> [] \<Longrightarrow> \<exists>s. construct tm = Inr s"
proof -
  assume ne: "tm \<noteq> []"
  define ttm where "ttm = map (\<lambda>(team, members). (team, strip ` members)) tm"
  have keys: "\<forall>t \<in> set (map fst ttm). map_of ttm t \<noteq> None"
    by (simp add: map_of_eq_None_iff)
  from build_compatibility_graph_ok[OF keys] obtain adj where
    a: "build_compatibility_graph ttm (map fst ttm) (length (map fst ttm)) = Inr adj" by blast
  then show ?thesis using ne by (simp add: construct_def Let_def ttm_def[symmetric])
qed

lemma construct_solver_ok:
  assumes "construct tm = Inr s"
  shows "solver_ok s"
proof -
  note c = construct_Inr[OF assms]
  have keys: "\<forall>t \<in> set (teams s). map_of (teams_to_members s) t \<noteq> None"
    using c by (auto simp: map_of_eq_None_iff image_iff case_prod_unfold)
  have masks: "0 \<le> a \<and> a < 2 ^ team_count s" if "a \<in> set (adjacency_masks s)" for a
  proof -
    from that obtain i where i: "i < length tm" "a = adjacency_masks s ! i"
      using c by (auto simp: in_set_conv_nth)
    with c have "0 \<le> a" and "\<forall>j. bit a j \<longrightarrow> j < length tm" by auto
    then show ?thesis using bits_below[of a "length tm"] c by simp
  qed
  have idx: "\<forall>t \<in> set (teams s). team_to_idx s t \<noteq> None"
  proof
    fix t assume "t \<in> set (teams s)"
    then have "t \<in> set (map fst tm)" using c by simp
    from index_dict_dom[OF this] show "team_to_idx s t \<noteq> None" using c by simp
  qed
  have pos: "0 < team_count s" using c by simp
  have inv: "\<forall>t i. team_to_idx s t = Some i \<longrightarrow> i < team_count s \<and> teams s ! i = t"
    using c by (auto dest: index_dict_Some)
  have len: "length (teams s) = team_count s" "length (adjacency_masks s) = team_count s"
    using c by simp_all
  show ?thesis unfolding solver_ok_def using pos len masks keys idx inv by blast
qed

section \<open>What the ranking builds\<close>

text \<open>
  On a solver that satisfies the invariant of the constructor, and with start and end
  teams that are known where they are given, lines 57 to 76 raise nothing: the ranking
  is a permutation of the indices, the reindexed masks form a graph on the ranks, and
  a start or end team is the team at its rank.
\<close>

lemma sorted_by_length: "sorted_by k xs = Inr ys \<Longrightarrow> length ys = length xs"
  by (auto simp: sorted_by_def split: sum.splits dest: map_r_length)

lemma sorted_by_distinct:
  assumes "sorted_by k xs = Inr ys" and "distinct xs"
  shows "distinct ys"
proof -
  have "card (set ys) = length ys"
    using sorted_by_set[OF assms(1)] sorted_by_length[OF assms(1)] distinct_card[OF assms(2)]
    by simp
  then show ?thesis by (rule card_distinct)
qed

lemma map_r_getitem:
  "\<forall>i \<in> set is. i < length xs \<Longrightarrow> map_r (getitem xs) is = Inr (map ((!) xs) is)"
  by (induction "is") (auto simp: getitem_def)

lemma reindex_mask_ok:
  assumes "\<forall>j \<in> set js. idx_to_rank j \<noteq> None"
    and "\<forall>j r. idx_to_rank j = Some r \<longrightarrow> r < n"
    and "0 \<le> m0 \<and> m0 < 2 ^ n"
  shows "\<exists>m. reindex_mask idx_to_rank original_mask js m0 = Inr m \<and> 0 \<le> m \<and> m < 2 ^ n"
  using assms
proof (induction js arbitrary: m0)
  case Nil
  then show ?case by simp
next
  case (Cons j js)
  then obtain r where r: "idx_to_rank j = Some r" by auto
  with Cons.prems have rn: "r < n" by blast
  have "0 \<le> m0 OR push_bit r 1 \<and> m0 OR push_bit r 1 < 2 ^ n"
    using Cons.prems(3) rn by (simp add: OR_upper)
  with Cons.IH[of "m0 OR push_bit r 1"] Cons.IH[of m0] Cons.prems r
  show ?case by (auto simp: lookup_def)
qed

lemma reindex_loop_ok:
  assumes "\<forall>i \<in> set is. i < length masks \<and> idx_to_rank i \<noteq> None"
    and "\<forall>j < n. idx_to_rank j \<noteq> None"
    and "\<forall>j r. idx_to_rank j = Some r \<longrightarrow> r < n"
    and "length adj_r = n" and "\<forall>a \<in> set adj_r. 0 \<le> a \<and> a < 2 ^ n"
  shows "\<exists>adj_r'. reindex_loop masks idx_to_rank n is adj_r = Inr adj_r' \<and> graph_ok n adj_r'"
  using assms
proof (induction "is" arbitrary: adj_r)
  case Nil
  then show ?case by (simp add: graph_ok_def)
next
  case (Cons i "is")
  have i: "i < length masks" using Cons.prems(1) by simp
  obtain r where r: "idx_to_rank i = Some r" using Cons.prems(1) by auto
  with Cons.prems(3) have rn: "r < n" by blast
  have "\<forall>j \<in> set [0..<n]. idx_to_rank j \<noteq> None" using Cons.prems(2) by simp
  from reindex_mask_ok[OF this Cons.prems(3), of 0 "masks ! i"] obtain m where
    m: "reindex_mask idx_to_rank (masks ! i) [0..<n] 0 = Inr m" and mb: "0 \<le> m \<and> m < 2 ^ n"
    by auto
  have step: "reindex_loop masks idx_to_rank n (i # is) adj_r
      = reindex_loop masks idx_to_rank n is (adj_r[r := m])"
    using i r rn m Cons.prems(4) by (simp add: getitem_def lookup_def setitem_def)
  have "\<forall>a \<in> set (adj_r[r := m]). 0 \<le> a \<and> a < 2 ^ n"
    using Cons.prems(5) mb by (blast dest: set_update_subset_insert[THEN subsetD])
  moreover have "length (adj_r[r := m]) = n" using Cons.prems(4) by simp
  moreover have "\<forall>i \<in> set is. i < length masks \<and> idx_to_rank i \<noteq> None" using Cons.prems(1) by simp
  ultimately show ?case using Cons.IH[of "adj_r[r := m]"] Cons.prems(2,3) step by simp
qed

lemma node_of_ok:
  assumes ok: "solver_ok self"
    and known: "truthy team \<longrightarrow> team_to_idx self (the team) \<noteq> None"
    and d: "distinct ranked" and r: "set ranked = {..<team_count self}"
  shows "\<exists>node. node_of self (rank_dict ranked) team = Inr node \<and> node_ok (team_count self) node \<and>
           (if truthy team
            then \<exists>v. node = Some v \<and> teams self ! (ranked ! v) = the team
            else node = None)"
proof (cases "truthy team")
  case False
  then show ?thesis by (simp add: node_of_def node_ok_def)
next
  case True
  with known obtain i where i: "team_to_idx self (the team) = Some i" by auto
  with ok have il: "i < team_count self" and ti: "teams self ! i = the team"
    by (auto simp: solver_ok_def)
  from il r have "i \<in> set ranked" by simp
  from rank_dict_dom[OF this] obtain v where v: "rank_dict ranked i = Some v" by blast
  from rank_dict_Some[OF v] have vl: "v < length ranked" and rv: "ranked ! v = i" by simp_all
  have "length ranked = team_count self" using d r distinct_card[OF d] by simp
  with vl have "v < team_count self" by simp
  then show ?thesis using True i v ti rv by (simp add: node_of_def lookup_def node_ok_def)
qed

lemma prepare_ok:
  assumes ok: "solver_ok self"
    and s: "truthy start_team \<longrightarrow> team_to_idx self (the start_team) \<noteq> None"
    and e: "truthy end_team \<longrightarrow> team_to_idx self (the end_team) \<noteq> None"
  shows "\<exists>ranked adj_r start_node_r end_node_r.
           prepare self start_team end_team
             = Inr (map ((!) (teams self)) ranked, adj_r, start_node_r, end_node_r) \<and>
           distinct ranked \<and> set ranked = {..<team_count self} \<and>
           graph_ok (team_count self) adj_r \<and>
           node_ok (team_count self) start_node_r \<and> node_ok (team_count self) end_node_r \<and>
           (if truthy start_team
            then \<exists>v. start_node_r = Some v \<and> teams self ! (ranked ! v) = the start_team
            else start_node_r = None) \<and>
           (if truthy end_team
            then \<exists>v. end_node_r = Some v \<and> teams self ! (ranked ! v) = the end_team
            else end_node_r = None)"
proof -
  define n where "n = team_count self"
  have la: "length (adjacency_masks self) = n" and lt: "length (teams self) = n"
    using ok by (simp_all add: solver_ok_def n_def)
  have "\<forall>i \<in> set [0..<n]. \<exists>y. (case getitem (adjacency_masks self) i of
           Inl e \<Rightarrow> Inl e | Inr a \<Rightarrow> Inr (bin_count1 a)) = Inr y"
    using la by (simp add: getitem_def)
  from sorted_by_ok[OF this] obtain ranked where
    ranked: "sorted_by (\<lambda>i. case getitem (adjacency_masks self) i of
           Inl e \<Rightarrow> Inl e | Inr a \<Rightarrow> Inr (bin_count1 a)) [0..<n] = Inr ranked" by blast
  have rs: "set ranked = {..<n}" using sorted_by_set[OF ranked] by (simp add: lessThan_atLeast0)
  have rd: "distinct ranked" using sorted_by_distinct[OF ranked] by simp
  have rl: "length ranked = n" using sorted_by_length[OF ranked] by simp
  have tr: "map_r (getitem (teams self)) ranked = Inr (map ((!) (teams self)) ranked)"
    using rs lt by (intro map_r_getitem) simp
  have dom: "\<forall>j < n. rank_dict ranked j \<noteq> None"
    using rank_dict_dom[of _ ranked] rs by fastforce
  have ran: "\<forall>j r. rank_dict ranked j = Some r \<longrightarrow> r < n"
    using rank_dict_Some[of ranked] rl by blast
  have "\<forall>i \<in> set [0..<n]. i < length (adjacency_masks self) \<and> rank_dict ranked i \<noteq> None"
    using la dom by simp
  from reindex_loop_ok[OF this dom ran, of "replicate n 0"] obtain adj_r where
    adj: "reindex_loop (adjacency_masks self) (rank_dict ranked) n [0..<n] (replicate n 0) = Inr adj_r"
    and g: "graph_ok n adj_r" by auto
  from node_of_ok[OF ok s rd rs[unfolded n_def]] obtain sn where
    sn: "node_of self (rank_dict ranked) start_team = Inr sn" "node_ok n sn"
      "if truthy start_team
            then \<exists>v. sn = Some v \<and> teams self ! (ranked ! v) = the start_team
            else sn = None"
    unfolding n_def by blast
  from node_of_ok[OF ok e rd rs[unfolded n_def]] obtain en where
    en: "node_of self (rank_dict ranked) end_team = Inr en" "node_ok n en"
      "if truthy end_team
            then \<exists>v. en = Some v \<and> teams self ! (ranked ! v) = the end_team
            else en = None"
    unfolding n_def by blast
  have "prepare self start_team end_team = Inr (map ((!) (teams self)) ranked, adj_r, sn, en)"
    using ranked tr adj sn(1) en(1) by (simp add: prepare_def n_def)
  then show ?thesis using rd rs g sn(2,3) en(2,3) unfolding n_def by blast
qed

section \<open>What the generator yields\<close>

text \<open>
  On a solver that satisfies the invariant of the constructor and with known start and
  end teams, every setlist that the generator yields names the teams at the ranks of a
  path of the search, and the generator ends normally or with the
  \<^verbatim>\<open>RecursionError\<close> of the search: normally whenever the depth is greater
  than the number of teams.
\<close>

lemma pairs_valid_ok:
  "\<forall>(a, b) \<in> set ps. map_of ttm a \<noteq> None \<and> map_of ttm b \<noteq> None \<Longrightarrow>
     \<exists>r. pairs_valid ttm ps = Inr r"
  by (induction ps) (auto simp: lookup_def Let_def)

lemma sequence_is_valid_ok:
  assumes "\<forall>t \<in> set seq. map_of (teams_to_members self) t \<noteq> None"
  shows "\<exists>r. sequence_is_valid self seq = Inr r"
proof -
  have "\<forall>(a, b) \<in> set (zip seq (tl seq)).
          map_of (teams_to_members self) a \<noteq> None \<and> map_of (teams_to_members self) b \<noteq> None"
  proof (clarify, intro conjI)
    fix a b assume ab: "(a, b) \<in> set (zip seq (tl seq))"
    then have "a \<in> set seq" by (rule set_zip_leftD)
    then show "map_of (teams_to_members self) a \<noteq> None" using assms by blast
    from ab have "b \<in> set (tl seq)" by (rule set_zip_rightD)
    then have "b \<in> set seq" by (cases seq) auto
    then show "map_of (teams_to_members self) b \<noteq> None" using assms by blast
  qed
  from pairs_valid_ok[OF this] show ?thesis by (simp add: sequence_is_valid_def)
qed

lemma produce_ok:
  assumes "\<forall>p \<in> set paths. \<forall>c \<in> set p. c < length teams_r"
    and "\<forall>t \<in> set teams_r. map_of (teams_to_members self) t \<noteq> None"
  shows "(snd (produce self limit teams_r paths fin p0) = None \<or>
          snd (produce self limit teams_r paths fin p0) = fin) \<and>
         (\<forall>seq \<in> set (fst (produce self limit teams_r paths fin p0)).
            \<exists>p \<in> set paths. seq = map ((!) teams_r) p)"
  using assms(1)
proof (induction paths arbitrary: p0)
  case Nil
  then show ?case by simp
next
  case (Cons p paths)
  have m: "map_r (getitem teams_r) p = Inr (map ((!) teams_r) p)"
    using Cons.prems by (intro map_r_getitem) simp
  have "\<forall>t \<in> set (map ((!) teams_r) p). map_of (teams_to_members self) t \<noteq> None"
    using Cons.prems assms(2) by simp
  from sequence_is_valid_ok[OF this] obtain okv conflict where
    v: "sequence_is_valid self (map ((!) teams_r) p) = Inr (okv, conflict)" by fastforce
  have rest: "\<forall>p \<in> set paths. \<forall>c \<in> set p. c < length teams_r" using Cons.prems by simp
  note IH = Cons.IH[OF rest]
  show ?case
  proof (cases "limit \<noteq> None \<and> the limit \<le> p0")
    case True
    then show ?thesis by simp
  next
    case False
    have eq: "produce self limit teams_r (p # paths) fin p0 =
        (if \<not> okv then produce self limit teams_r paths fin p0
         else (case produce self limit teams_r paths fin (p0 + 1) of
                 (out, r) \<Rightarrow> (map ((!) teams_r) p # out, r)))"
      using False by (simp only: produce.simps if_False m v sum.case prod.case)
    show ?thesis
    proof (cases okv)
      case True
      obtain out r where pr: "produce self limit teams_r paths fin (p0 + 1) = (out, r)"
        by (cases "produce self limit teams_r paths fin (p0 + 1)")
      with IH[of "p0 + 1"] show ?thesis unfolding eq using True by auto
    next
      case f: False
      with IH[of p0] show ?thesis unfolding eq by auto
    qed
  qed
qed

lemma backtrack_ok:
  assumes "graph_ok n adj_r" and "node_ok n start_node_r" and "node_ok n end_node_r"
  shows "(snd (backtrack_with_end depth n adj_r start_node_r end_node_r) = None \<or>
          snd (backtrack_with_end depth n adj_r start_node_r end_node_r) = Some RecursionError) \<and>
         (n < depth \<longrightarrow> snd (backtrack_with_end depth n adj_r start_node_r end_node_r) = None) \<and>
         (\<forall>p \<in> set (fst (backtrack_with_end depth n adj_r start_node_r end_node_r)).
            path_ok n start_node_r end_node_r p)"
proof -
  have "state_ok n start_node_r (fst ([], 0::int)) (snd ([]::nat list, 0))"
    by (simp add: state_ok_def split: option.splits)
  from solve_visit_ok(1)[OF assms this, of depth] show ?thesis
    by (auto simp: backtrack_with_end_def)
qed

lemma generate_ok:
  assumes ok: "solver_ok self"
    and s: "truthy start_team \<longrightarrow> team_to_idx self (the start_team) \<noteq> None"
    and e: "truthy end_team \<longrightarrow> team_to_idx self (the end_team) \<noteq> None"
  shows "\<exists>ranked start_node_r end_node_r.
           distinct ranked \<and> set ranked = {..<team_count self} \<and>
           (if truthy start_team
            then \<exists>v. start_node_r = Some v \<and> teams self ! (ranked ! v) = the start_team
            else start_node_r = None) \<and>
           (if truthy end_team
            then \<exists>v. end_node_r = Some v \<and> teams self ! (ranked ! v) = the end_team
            else end_node_r = None) \<and>
           (snd (generate_valid_setlists depth self limit start_team end_team debug) = None \<or>
            snd (generate_valid_setlists depth self limit start_team end_team debug)
              = Some RecursionError) \<and>
           (team_count self < depth \<longrightarrow>
              snd (generate_valid_setlists depth self limit start_team end_team debug) = None) \<and>
           (\<forall>seq \<in> set (fst (generate_valid_setlists depth self limit start_team end_team debug)).
              \<exists>p. path_ok (team_count self) start_node_r end_node_r p \<and>
                  seq = map (\<lambda>c. teams self ! (ranked ! c)) p)"
proof -
  from prepare_ok[OF ok s e] obtain ranked adj_r sn en where
    p: "prepare self start_team end_team = Inr (map ((!) (teams self)) ranked, adj_r, sn, en)"
    and rd: "distinct ranked" and rs: "set ranked = {..<team_count self}"
    and g: "graph_ok (team_count self) adj_r"
    and sn: "node_ok (team_count self) sn" and en: "node_ok (team_count self) en"
    and st: "if truthy start_team
            then \<exists>v. sn = Some v \<and> teams self ! (ranked ! v) = the start_team
            else sn = None"
    and et: "if truthy end_team
            then \<exists>v. en = Some v \<and> teams self ! (ranked ! v) = the end_team
            else en = None"
    by blast
  define teams_r where "teams_r = map ((!) (teams self)) ranked"
  have rl: "length ranked = team_count self" using rd rs distinct_card[OF rd] by simp
  obtain paths fin where b: "backtrack_with_end depth (team_count self) adj_r sn en = (paths, fin)"
    by (cases "backtrack_with_end depth (team_count self) adj_r sn en")
  from backtrack_ok[OF g sn en, of depth] b
  have fin: "fin = None \<or> fin = Some RecursionError"
    and fin': "team_count self < depth \<longrightarrow> fin = None"
    and paths: "\<forall>p \<in> set paths. path_ok (team_count self) sn en p" by simp_all
  have gen: "generate_valid_setlists depth self limit start_team end_team debug
      = produce self limit teams_r paths fin 0"
    using s e p b by (auto simp: generate_valid_setlists_def teams_r_def)
  have lt: "length (teams self) = team_count self" using ok by (simp add: solver_ok_def)
  have inr: "\<forall>p \<in> set paths. \<forall>c \<in> set p. c < length teams_r"
    using paths rl by (auto simp: path_ok_def teams_r_def)
  have keys: "\<forall>t \<in> set teams_r. map_of (teams_to_members self) t \<noteq> None"
  proof
    fix t assume "t \<in> set teams_r"
    then obtain i where "i \<in> set ranked" "t = teams self ! i" by (auto simp: teams_r_def)
    with rs lt have "t \<in> set (teams self)" by simp
    with ok show "map_of (teams_to_members self) t \<noteq> None" by (simp add: solver_ok_def)
  qed
  from produce_ok[OF inr keys, of limit fin 0]
  have ends: "snd (generate_valid_setlists depth self limit start_team end_team debug) = None \<or>
              snd (generate_valid_setlists depth self limit start_team end_team debug) = fin"
    and seqs: "\<forall>seq \<in> set (fst (generate_valid_setlists depth self limit start_team end_team debug)).
            \<exists>p \<in> set paths. seq = map ((!) teams_r) p"
    unfolding gen by simp_all
  have e1: "snd (generate_valid_setlists depth self limit start_team end_team debug) = None \<or>
            snd (generate_valid_setlists depth self limit start_team end_team debug)
              = Some RecursionError"
    using ends fin by auto
  have e2: "team_count self < depth \<longrightarrow>
              snd (generate_valid_setlists depth self limit start_team end_team debug) = None"
    using ends fin' by auto
  have "\<exists>p. path_ok (team_count self) sn en p \<and> seq = map (\<lambda>c. teams self ! (ranked ! c)) p"
    if "seq \<in> set (fst (generate_valid_setlists depth self limit start_team end_team debug))" for seq
  proof -
    from seqs that obtain p where pp: "p \<in> set paths" and sq: "seq = map ((!) teams_r) p" by blast
    from paths pp have po: "path_ok (team_count self) sn en p" by blast
    then have "\<forall>c \<in> set p. c < length ranked" using rl by (simp add: path_ok_def)
    then have "map ((!) teams_r) p = map (\<lambda>c. teams self ! (ranked ! c)) p"
      by (simp add: teams_r_def)
    with po sq show ?thesis by blast
  qed
  with rd rs st et e1 e2 show ?thesis by blast
qed

section \<open>Properties of the generator loop\<close>

lemma produce_take:
  "p0 \<le> k \<Longrightarrow>
     fst (produce self (Some k) teams_r paths fin p0)
       = take (nat (k - p0)) (fst (produce self None teams_r paths fin p0))"
proof (induction paths arbitrary: p0)
  case Nil
  then show ?case by simp
next
  case (Cons p paths)
  show ?case
  proof (cases "k \<le> p0")
    case True
    with Cons.prems show ?thesis by simp
  next
    case False
    then have lt: "p0 + 1 \<le> k" by simp
    have n: "nat (k - p0) = Suc (nat (k - (p0 + 1)))" using False by simp
    show ?thesis using False Cons.IH[OF lt] Cons.IH[OF Cons.prems]
      by (auto simp: n split: sum.splits prod.splits)
  qed
qed

lemma pairs_valid_True:
  "pairs_valid ttm ps = Inr (True, c) \<Longrightarrow>
     c = None \<and> (\<forall>(a, b) \<in> set ps. \<exists>ma mb. map_of ttm a = Some ma \<and> map_of ttm b = Some mb \<and> ma \<inter> mb = {})"
  by (induction ps) (auto simp: lookup_def Let_def split: sum.splits option.splits if_splits)

lemma produce_valid:
  "seq \<in> set (fst (produce self limit teams_r paths fin p0)) \<Longrightarrow>
     \<exists>c. sequence_is_valid self seq = Inr (True, c)"
proof (induction paths arbitrary: p0)
  case Nil
  then show ?case by simp
next
  case (Cons p paths)
  show ?case
  proof (cases "limit \<noteq> None \<and> the limit \<le> p0")
    case True
    with Cons.prems show ?thesis by simp
  next
    case False
    have eq: "produce self limit teams_r (p # paths) fin p0 =
        (case map_r (getitem teams_r) p of
           Inl e \<Rightarrow> ([], Some e)
         | Inr seq \<Rightarrow>
             (case sequence_is_valid self seq of
                Inl e \<Rightarrow> ([], Some e)
              | Inr (ok, conflict) \<Rightarrow>
                  if \<not> ok then produce self limit teams_r paths fin p0
                  else
                    (case produce self limit teams_r paths fin (p0 + 1) of
                       (out, r) \<Rightarrow> (seq # out, r))))"
      using False by (simp only: produce.simps if_False)
    note prems = Cons.prems[unfolded eq]
    show ?thesis
    proof (cases "map_r (getitem teams_r) p")
      case (Inl e)
      with prems show ?thesis by simp
    next
      case (Inr s)
      show ?thesis
      proof (cases "sequence_is_valid self s")
        case (Inl e)
        with Inr prems show ?thesis by simp
      next
        case r: (Inr okc)
        obtain ok c where okc: "okc = (ok, c)" by (cases okc)
        show ?thesis
        proof (cases ok)
          case True
          obtain out r' where pr: "produce self limit teams_r paths fin (p0 + 1) = (out, r')"
            by (cases "produce self limit teams_r paths fin (p0 + 1)")
          with Inr r okc True prems have "seq = s \<or> seq \<in> set out" by auto
          then show ?thesis
          proof
            assume "seq = s" then show ?thesis using r okc True by simp
          next
            assume "seq \<in> set out"
            then have "seq \<in> set (fst (produce self limit teams_r paths fin (p0 + 1)))"
              by (simp add: pr)
            then show ?thesis by (rule Cons.IH)
          qed
        next
          case f: False
          with Inr r okc prems
          have "seq \<in> set (fst (produce self limit teams_r paths fin p0))" by auto
          then show ?thesis by (rule Cons.IH)
        qed
      qed
    qed
  qed
qed

lemma zip_tl_nth: "Suc i < length xs \<Longrightarrow> (xs ! i, xs ! Suc i) \<in> set (zip xs (tl xs))"
  by (auto simp: set_zip nth_tl intro!: exI[of _ i])

lemma generate_raises:
  "truthy start_team \<and> team_to_idx self (the start_team) = None \<or>
   truthy end_team \<and> team_to_idx self (the end_team) = None \<Longrightarrow>
     fst (generate_valid_setlists depth self limit start_team end_team debug) = [] \<and>
     snd (generate_valid_setlists depth self limit start_team end_team debug) \<noteq> None \<and>
     (\<exists>t. snd (generate_valid_setlists depth self limit start_team end_team debug)
            = Some (StartNotFound t) \<or>
          snd (generate_valid_setlists depth self limit start_team end_team debug)
            = Some (EndNotFound t))"
  by (auto simp: generate_valid_setlists_def)

lemma permutation_set:
  assumes "distinct p" and "length p = n" and "\<forall>c \<in> set p. c < n"
  shows "set p = {..<n}"
proof (rule card_subset_eq)
  show "finite {..<n}" by simp
  show "set p \<subseteq> {..<n}" using assms(3) by auto
  show "card (set p) = card {..<n}" using distinct_card[OF assms(1)] assms(2) by simp
qed

lemma distinct_count_list: "distinct xs \<Longrightarrow> x \<in> set xs \<Longrightarrow> count_list xs x = 1"
  by (induction xs) auto

lemma emitted_is_ranked_path:
  assumes c: "construct tm = Inr s"
    and seq: "seq \<in> set (fst (generate_valid_setlists depth s limit start_team end_team debug))"
  shows "\<exists>ranked start_node_r end_node_r p.
           distinct ranked \<and> set ranked = {..<length tm} \<and>
           (if truthy start_team
            then \<exists>v. start_node_r = Some v \<and> map fst tm ! (ranked ! v) = the start_team
            else start_node_r = None) \<and>
           (if truthy end_team
            then \<exists>v. end_node_r = Some v \<and> map fst tm ! (ranked ! v) = the end_team
            else end_node_r = None) \<and>
           path_ok (length tm) start_node_r end_node_r p \<and>
           seq = map (\<lambda>c. map fst tm ! (ranked ! c)) p"
proof -
  have ok: "solver_ok s" using c by (rule construct_solver_ok)
  note f = construct_Inr[OF c]
  have known: "(truthy start_team \<longrightarrow> team_to_idx s (the start_team) \<noteq> None) \<and>
               (truthy end_team \<longrightarrow> team_to_idx s (the end_team) \<noteq> None)"
    using generate_raises[of start_team s end_team depth limit debug] seq by fastforce
  from generate_ok[OF ok known[THEN conjunct1] known[THEN conjunct2], of depth limit debug] seq f
  show ?thesis by fastforce
qed

lemma team_to_idx_None:
  assumes "construct tm = Inr s"
  shows "team_to_idx s t = None \<longleftrightarrow> t \<notin> set (map fst tm)"
proof -
  note f = construct_Inr[OF assms]
  show ?thesis
  proof
    assume "team_to_idx s t = None"
    then show "t \<notin> set (map fst tm)" using index_dict_dom[of t "map fst tm"] f by auto
  next
    assume n: "t \<notin> set (map fst tm)"
    show "team_to_idx s t = None"
    proof (rule ccontr)
      assume "team_to_idx s t \<noteq> None"
      then obtain i where "index_dict (map fst tm) t = Some i" using f by auto
      from index_dict_Some[OF this] n show False by (metis nth_mem)
    qed
  qed
qed

lemma construct_projr: "tm \<noteq> [] \<Longrightarrow> construct tm = Inr (projr (construct tm))"
  using construct_nonempty[of tm] by auto

lemma bits_single: "{i. bit ((2::int) ^ e) i} = {e}"
  by (auto simp: bit_exp_iff)

section \<open>The paths of the search pass the validation\<close>

text \<open>
  Consecutive nodes of a path that the search yields are adjacent in the reindexed
  graph, whose bit \<open>q\<close> of mask \<open>r\<close> is the bit of the teams at the ranks \<open>r\<close> and
  \<open>q\<close> in the solver's masks.  On a constructed solver adjacent teams have disjoint
  members, so \<^verbatim>\<open>_sequence_is_valid\<close> accepts every path: the setlists yielded are
  determined by the team list and the adjacency masks.
\<close>

lemma reserve_end_bit:
  "reserve_end n end_node_r L allowed = Some m \<Longrightarrow> bit m c \<Longrightarrow> bit allowed c"
  by (auto simp: reserve_end_def Let_def bit_and_iff bit_exp_iff test_bit_iff
      split: option.splits if_splits)

lemma candidates_adjacent:
  assumes c: "candidates n adj_r start_node_r end_node_r path used_mask = Inr (Some cs)"
    and p: "path \<noteq> []" and x: "x \<in> set cs"
  shows "bit (adj_r ! last path) x"
proof -
  from c p obtain a allowed cs0 where a: "getitem adj_r (last path) = Inr a"
    and r: "reserve_end n end_node_r (length path) (a AND NOT used_mask) = Some allowed"
    and b: "bits_loop allowed [] = Some cs0"
    and s: "sorted_by (\<lambda>c. case getitem adj_r c of Inl e \<Rightarrow> Inl e
                 | Inr b \<Rightarrow> Inr (bin_count1 (b AND NOT used_mask))) cs0 = Inr cs"
    by (auto simp: candidates_def Let_def split: sum.splits option.splits)
  from a have a': "a = adj_r ! last path" by (auto simp: getitem_def split: if_splits)
  from b have "set cs0 = {i. bit allowed i}"
    by (auto simp: bits_loop_Some_iff finite_bits_nonneg)
  with sorted_by_set[OF s] x have "bit allowed x" by simp
  from reserve_end_bit[OF r this] show ?thesis by (simp add: a' bit_and_iff)
qed

lemma chain_snoc:
  "chain adj_r p \<Longrightarrow> (p \<noteq> [] \<longrightarrow> bit (adj_r ! last p) c) \<Longrightarrow> chain adj_r (p @ [c])"
proof -
  assume ch: "chain adj_r p" and b: "p \<noteq> [] \<longrightarrow> bit (adj_r ! last p) c"
  have "bit (adj_r ! ((p @ [c]) ! i)) ((p @ [c]) ! Suc i)" if "Suc i < length (p @ [c])" for i
  proof (cases "Suc i < length p")
    case True
    with ch show ?thesis by (simp add: chain_def nth_append)
  next
    case False
    with that have i: "Suc i = length p" by simp
    then have "p \<noteq> []" by auto
    with b have "bit (adj_r ! last p) c" by simp
    moreover have "length p - 1 = i" using i by simp
    then have "last p = p ! i" using \<open>p \<noteq> []\<close> by (simp add: last_conv_nth)
    ultimately show ?thesis using i by (simp add: nth_append)
  qed
  then show ?thesis by (simp add: chain_def)
qed

lemma solve_visit_chain:
  "chain adj_r (fst st) \<Longrightarrow>
     \<forall>p \<in> set (fst (fst (solve depth n adj_r start_node_r end_node_r st))). chain adj_r p"
  "chain adj_r (fst st) \<Longrightarrow>
   (\<forall>c \<in> set cs. fst st \<noteq> [] \<longrightarrow> bit (adj_r ! last (fst st)) c) \<Longrightarrow>
     \<forall>p \<in> set (fst (fst (visit depth n adj_r start_node_r end_node_r cs st))). chain adj_r p"
proof (induction depth n adj_r start_node_r end_node_r st and depth n adj_r start_node_r end_node_r cs st
        rule: solve_visit.induct)
  case (1 n adj_r start_node_r end_node_r st)
  show ?case by (simp add: solve.simps(1))
next
  case (2 depth n adj_r start_node_r end_node_r path used_mask)
  show ?case
  proof (cases "length path = n")
    case True
    then show ?thesis using "2.prems"
      by (auto simp: solve.simps(2)[of depth n adj_r start_node_r end_node_r path used_mask]
            split: option.splits sum.splits)
  next
    case False
    show ?thesis
    proof (cases "candidates n adj_r start_node_r end_node_r path used_mask")
      case (Inl e)
      then show ?thesis using False
        by (simp add: solve.simps(2)[of depth n adj_r start_node_r end_node_r path used_mask])
    next
      case (Inr r)
      show ?thesis
      proof (cases r)
        case None
        then show ?thesis using False Inr
          by (simp add: solve.simps(2)[of depth n adj_r start_node_r end_node_r path used_mask])
      next
        case (Some cs)
        have "\<forall>c \<in> set cs. fst (path, used_mask) \<noteq> [] \<longrightarrow> bit (adj_r ! last (fst (path, used_mask))) c"
          using candidates_adjacent[OF Inr[unfolded Some]] by simp
        from "2.IH"[OF False Inr Some "2.prems" this] show ?thesis using False Inr Some
          by (simp add: solve.simps(2)[of depth n adj_r start_node_r end_node_r path used_mask])
      qed
    qed
  qed
next
  case (3 depth n adj_r start_node_r end_node_r st)
  then show ?case by (simp add: visit.simps)
next
  case (4 depth n adj_r start_node_r end_node_r c cs path used_mask)
  have ch: "chain adj_r path" using "4.prems"(1) by simp
  have cs: "\<forall>c \<in> set cs. fst (path, used_mask) \<noteq> [] \<longrightarrow> bit (adj_r ! last (fst (path, used_mask))) c"
    using "4.prems"(2) by simp
  show ?case
  proof (cases "drop_bit c used_mask AND 1 \<noteq> 0")
    case True
    from "4.IH"(1)[OF True "4.prems"(1) cs] show ?thesis using True
      by (simp add: visit.simps(2)[of depth n adj_r start_node_r end_node_r c cs path used_mask])
  next
    case False
    then have nb: "\<not> bit used_mask c" by (simp add: test_bit_iff)
    have "chain adj_r (path @ [c])" using ch "4.prems"(2) by (intro chain_snoc) simp_all
    then have ch': "chain adj_r (fst (path @ [c], used_mask OR push_bit c 1))" by simp
    obtain ys r st' where
      sv: "solve depth n adj_r start_node_r end_node_r (path @ [c], used_mask OR push_bit c 1)
             = ((ys, r), st')" by (metis surj_pair)
    from "4.IH"(2)[OF False ch'] sv have ys: "\<forall>p \<in> set ys. chain adj_r p" by simp
    show ?thesis
    proof (cases r)
      case (Some err)
      then show ?thesis using False sv ys
        by (simp add: visit.simps(2)[of depth n adj_r start_node_r end_node_r c cs path used_mask])
    next
      case None
      from solve_restores(1)[OF sv[unfolded None]]
      have st': "st' = (path @ [c], used_mask OR push_bit c 1)" .
      have pp: "pop (path @ [c]) = Inr path" by (simp add: pop_def)
      have ch2: "chain adj_r (fst (path, (used_mask OR push_bit c 1) AND NOT (push_bit c 1)))"
        using ch by simp
      have cs2: "\<forall>x \<in> set cs. fst (path, (used_mask OR push_bit c 1) AND NOT (push_bit c 1)) \<noteq> [] \<longrightarrow>
          bit (adj_r ! last (fst (path, (used_mask OR push_bit c 1) AND NOT (push_bit c 1)))) x"
        using cs by simp
      from "4.IH"(3)[OF False sv[unfolded None st', symmetric] refl refl refl pp ch2 cs2]
      have zs: "\<forall>p \<in> set (fst (fst (visit depth n adj_r start_node_r end_node_r cs
                  (path, (used_mask OR push_bit c 1) AND NOT (push_bit c 1))))). chain adj_r p" .
      show ?thesis using False sv None st' ys zs
        by (auto simp: visit.simps(2)[of depth n adj_r start_node_r end_node_r c cs path used_mask]
              pop_def split: prod.splits)
    qed
  qed
qed

lemma backtrack_chain:
  "\<forall>p \<in> set (fst (backtrack_with_end depth n adj_r start_node_r end_node_r)). chain adj_r p"
proof -
  have "chain adj_r (fst ([]::nat list, 0::int))" by (simp add: chain_def)
  from solve_visit_chain(1)[OF this] show ?thesis by (simp add: backtrack_with_end_def)
qed

lemma reindex_mask_bits:
  assumes "\<forall>j \<in> set js. idx_to_rank j \<noteq> None"
  shows "\<exists>m. reindex_mask idx_to_rank original_mask js m0 = Inr m \<and>
           (\<forall>q. bit m q \<longleftrightarrow>
              bit m0 q \<or> (\<exists>j \<in> set js. bit original_mask j \<and> idx_to_rank j = Some q))"
  using assms
proof (induction js arbitrary: m0)
  case Nil
  then show ?case by simp
next
  case (Cons j js)
  then obtain r where r: "idx_to_rank j = Some r" by auto
  have rest: "\<forall>j \<in> set js. idx_to_rank j \<noteq> None" using Cons.prems by simp
  show ?case
  proof (cases "bit original_mask j")
    case True
    from Cons.IH[OF rest, of "m0 OR push_bit r 1"] obtain m where
      m: "reindex_mask idx_to_rank original_mask js (m0 OR push_bit r 1) = Inr m"
      and b: "\<forall>q. bit m q \<longleftrightarrow> bit (m0 OR push_bit r 1) q \<or>
                (\<exists>j \<in> set js. bit original_mask j \<and> idx_to_rank j = Some q)" by blast
    have "reindex_mask idx_to_rank original_mask (j # js) m0 = Inr m"
      using True r m by (simp add: test_bit_iff lookup_def)
    moreover have "bit m q \<longleftrightarrow> bit m0 q \<or>
        (\<exists>j \<in> set (j # js). bit original_mask j \<and> idx_to_rank j = Some q)" for q
      using b True r by (auto simp: bit_or_iff bit_exp_iff)
    ultimately show ?thesis by blast
  next
    case False
    from Cons.IH[OF rest, of m0] obtain m where
      m: "reindex_mask idx_to_rank original_mask js m0 = Inr m"
      and b: "\<forall>q. bit m q \<longleftrightarrow> bit m0 q \<or>
                (\<exists>j \<in> set js. bit original_mask j \<and> idx_to_rank j = Some q)" by blast
    have "reindex_mask idx_to_rank original_mask (j # js) m0 = Inr m"
      using False m by (simp add: test_bit_iff)
    moreover have "bit m q \<longleftrightarrow> bit m0 q \<or>
        (\<exists>j \<in> set (j # js). bit original_mask j \<and> idx_to_rank j = Some q)" for q
      using b False by auto
    ultimately show ?thesis by blast
  qed
qed

lemma reindex_loop_exact:
  assumes "distinct is"
    and "\<forall>i \<in> set is. i < length masks \<and> idx_to_rank i \<noteq> None"
    and dom: "\<forall>j < n. idx_to_rank j \<noteq> None"
    and ran: "\<forall>j r. idx_to_rank j = Some r \<longrightarrow> r < n"
    and inj: "\<forall>i j r. idx_to_rank i = Some r \<and> idx_to_rank j = Some r \<longrightarrow> i = j"
    and "length adj_r = n"
  shows "\<exists>adj_r'. reindex_loop masks idx_to_rank n is adj_r = Inr adj_r' \<and> length adj_r' = n \<and>
           (\<forall>i \<in> set is. \<forall>r. idx_to_rank i = Some r \<longrightarrow>
              adj_r' ! r = projr (reindex_mask idx_to_rank (masks ! i) [0..<n] 0)) \<and>
           (\<forall>r. (\<forall>i \<in> set is. idx_to_rank i \<noteq> Some r) \<longrightarrow> adj_r' ! r = adj_r ! r)"
  using assms(1,2,6)
proof (induction "is" arbitrary: adj_r)
  case Nil
  then show ?case by simp
next
  case (Cons i "is")
  have i: "i < length masks" using Cons.prems(2) by simp
  obtain r where r: "idx_to_rank i = Some r" using Cons.prems(2) by auto
  with ran have rn: "r < n" by blast
  have "\<forall>j \<in> set [0..<n]. idx_to_rank j \<noteq> None" using dom by simp
  from reindex_mask_bits[OF this, of "masks ! i" 0] obtain m where
    m: "reindex_mask idx_to_rank (masks ! i) [0..<n] 0 = Inr m" by blast
  have step: "reindex_loop masks idx_to_rank n (i # is) adj_r
      = reindex_loop masks idx_to_rank n is (adj_r[r := m])"
    using i r rn m Cons.prems(3) by (simp add: getitem_def lookup_def setitem_def)
  have d: "distinct is" and ni: "i \<notin> set is" using Cons.prems(1) by simp_all
  have rest: "\<forall>i \<in> set is. i < length masks \<and> idx_to_rank i \<noteq> None" using Cons.prems(2) by simp
  have len: "length (adj_r[r := m]) = n" using Cons.prems(3) by simp
  from Cons.IH[OF d rest len] obtain adj' where
    a: "reindex_loop masks idx_to_rank n is (adj_r[r := m]) = Inr adj'" and l: "length adj' = n"
    and hit: "\<forall>i \<in> set is. \<forall>r. idx_to_rank i = Some r \<longrightarrow>
              adj' ! r = projr (reindex_mask idx_to_rank (masks ! i) [0..<n] 0)"
    and miss: "\<forall>r'. (\<forall>i \<in> set is. idx_to_rank i \<noteq> Some r') \<longrightarrow> adj' ! r' = adj_r[r := m] ! r'"
    by blast
  have nohit: "\<forall>i' \<in> set is. idx_to_rank i' \<noteq> Some r" using inj r ni by blast
  have "adj' ! r = m" using miss nohit rn Cons.prems(3) by simp
  then have hit': "\<forall>i' \<in> set (i # is). \<forall>r'. idx_to_rank i' = Some r' \<longrightarrow>
              adj' ! r' = projr (reindex_mask idx_to_rank (masks ! i') [0..<n] 0)"
    using hit r m by auto
  have miss': "\<forall>r'. (\<forall>i' \<in> set (i # is). idx_to_rank i' \<noteq> Some r') \<longrightarrow> adj' ! r' = adj_r ! r'"
    using miss r by auto
  show ?case using step a l hit' miss' by simp
qed

lemma rank_dict_nth:
  assumes "distinct ranked" and "q < length ranked"
  shows "rank_dict ranked (ranked ! q) = Some q"
proof -
  from rank_dict_dom[of "ranked ! q" ranked] assms(2) obtain r where
    r: "rank_dict ranked (ranked ! q) = Some r" by auto
  from rank_dict_Some[OF r] have "r < length ranked" "ranked ! r = ranked ! q" by simp_all
  with assms have "r = q" by (simp add: nth_eq_iff_index_eq)
  with r show ?thesis by simp
qed

lemma prepare_exact:
  assumes ok: "solver_ok self"
    and p: "prepare self start_team end_team = Inr (teams_r, adj_r, start_node_r, end_node_r)"
  shows "\<exists>ranked. distinct ranked \<and> set ranked = {..<team_count self} \<and>
           teams_r = map ((!) (teams self)) ranked \<and>
           (\<forall>r < team_count self. \<forall>q. bit (adj_r ! r) q \<longleftrightarrow>
              q < team_count self \<and> bit (adjacency_masks self ! (ranked ! r)) (ranked ! q))"
proof -
  define n where "n = team_count self"
  have la: "length (adjacency_masks self) = n" and lt: "length (teams self) = n"
    using ok by (simp_all add: solver_ok_def n_def)
  from p obtain ranked where
    ranked: "sorted_by (\<lambda>i. case getitem (adjacency_masks self) i of
           Inl e \<Rightarrow> Inl e | Inr a \<Rightarrow> Inr (bin_count1 a)) [0..<n] = Inr ranked"
    and tr: "map_r (getitem (teams self)) ranked = Inr teams_r"
    and adj: "reindex_loop (adjacency_masks self) (rank_dict ranked) n [0..<n] (replicate n 0) = Inr adj_r"
    by (auto simp: prepare_def n_def Let_def split: sum.splits)
  have rs: "set ranked = {..<n}" using sorted_by_set[OF ranked] by (simp add: lessThan_atLeast0)
  have rd: "distinct ranked" using sorted_by_distinct[OF ranked] by simp
  have rl: "length ranked = n" using sorted_by_length[OF ranked] by simp
  have "map_r (getitem (teams self)) ranked = Inr (map ((!) (teams self)) ranked)"
    using rs lt by (intro map_r_getitem) simp
  with tr have tr': "teams_r = map ((!) (teams self)) ranked" by simp
  have dom: "\<forall>j < n. rank_dict ranked j \<noteq> None"
    using rank_dict_dom[of _ ranked] rs by fastforce
  have ran: "\<forall>j r. rank_dict ranked j = Some r \<longrightarrow> r < n"
    using rank_dict_Some[of ranked] rl by blast
  have inj: "\<forall>i j r. rank_dict ranked i = Some r \<and> rank_dict ranked j = Some r \<longrightarrow> i = j"
    using rank_dict_Some[of ranked] by blast
  have all: "\<forall>i \<in> set [0..<n]. i < length (adjacency_masks self) \<and> rank_dict ranked i \<noteq> None"
    using la dom by simp
  have "distinct [0..<n]" by simp
  from reindex_loop_exact[OF this all dom ran inj, of "replicate n 0"] adj
  have hit: "\<forall>i \<in> set [0..<n]. \<forall>r. rank_dict ranked i = Some r \<longrightarrow>
              adj_r ! r = projr (reindex_mask (rank_dict ranked) (adjacency_masks self ! i) [0..<n] 0)"
    by auto
  have "bit (adj_r ! r) q \<longleftrightarrow> q < n \<and> bit (adjacency_masks self ! (ranked ! r)) (ranked ! q)"
    if r: "r < n" for r q
  proof -
    have ri: "ranked ! r < n" using r rs rl nth_mem[of r ranked] by auto
    have rr: "rank_dict ranked (ranked ! r) = Some r" using rd r rl by (simp add: rank_dict_nth)
    have "\<forall>j \<in> set [0..<n]. rank_dict ranked j \<noteq> None" using dom by simp
    from reindex_mask_bits[OF this, of "adjacency_masks self ! (ranked ! r)" 0] obtain m where
      m: "reindex_mask (rank_dict ranked) (adjacency_masks self ! (ranked ! r)) [0..<n] 0 = Inr m"
      and b: "\<forall>q. bit m q \<longleftrightarrow>
               (\<exists>j \<in> set [0..<n]. bit (adjacency_masks self ! (ranked ! r)) j \<and> rank_dict ranked j = Some q)"
      by auto
    have "adj_r ! r = m" using hit ri rr m by simp
    moreover have "(\<exists>j \<in> set [0..<n]. bit (adjacency_masks self ! (ranked ! r)) j \<and> rank_dict ranked j = Some q)
        \<longleftrightarrow> q < n \<and> bit (adjacency_masks self ! (ranked ! r)) (ranked ! q)"
    proof
      assume "\<exists>j \<in> set [0..<n]. bit (adjacency_masks self ! (ranked ! r)) j \<and> rank_dict ranked j = Some q"
      then obtain j where j: "bit (adjacency_masks self ! (ranked ! r)) j" "rank_dict ranked j = Some q"
        by blast
      from rank_dict_Some[OF j(2)] j(1) rl
      show "q < n \<and> bit (adjacency_masks self ! (ranked ! r)) (ranked ! q)" by simp
    next
      assume a: "q < n \<and> bit (adjacency_masks self ! (ranked ! r)) (ranked ! q)"
      then have "rank_dict ranked (ranked ! q) = Some q" using rd rl by (simp add: rank_dict_nth)
      moreover have "ranked ! q < n" using a rs rl nth_mem[of q ranked] by auto
      ultimately show "\<exists>j \<in> set [0..<n]. bit (adjacency_masks self ! (ranked ! r)) j \<and> rank_dict ranked j = Some q"
        using a by auto
    qed
    ultimately show ?thesis using b by simp
  qed
  then show ?thesis using rd rs tr' unfolding n_def by blast
qed

lemma pairs_valid_disjoint:
  "\<forall>(a, b) \<in> set ps. \<exists>ma mb. map_of ttm a = Some ma \<and> map_of ttm b = Some mb \<and> ma \<inter> mb = {} \<Longrightarrow>
     pairs_valid ttm ps = Inr (True, None)"
  by (induction ps) (auto simp: lookup_def Let_def)

lemma members_at_lookup:
  assumes "solver_ok self" and "i < team_count self"
  shows "map_of (teams_to_members self) (teams self ! i) = Some (members_at self i)"
proof -
  have "teams self ! i \<in> set (teams self)" using assms by (simp add: solver_ok_def)
  with assms(1) have "map_of (teams_to_members self) (teams self ! i) \<noteq> None"
    by (simp add: solver_ok_def)
  then show ?thesis by (auto simp: members_at_def)
qed

lemma search_path_is_valid:
  assumes c: "construct tm = Inr s"
    and p: "prepare s start_team end_team = Inr (teams_r, adj_r, start_node_r, end_node_r)"
    and ch: "chain adj_r path" and lt: "\<forall>c \<in> set path. c < team_count s"
  shows "map_r (getitem teams_r) path = Inr (map ((!) teams_r) path) \<and>
         sequence_is_valid s (map ((!) teams_r) path) = Inr (True, None)"
proof -
  have ok: "solver_ok s" using c by (rule construct_solver_ok)
  note f = construct_Inr[OF c]
  from prepare_exact[OF ok p] obtain ranked where
    rd: "distinct ranked" and rs: "set ranked = {..<team_count s}"
    and tr: "teams_r = map ((!) (teams s)) ranked"
    and bits: "\<forall>r < team_count s. \<forall>q. bit (adj_r ! r) q \<longleftrightarrow>
              q < team_count s \<and> bit (adjacency_masks s ! (ranked ! r)) (ranked ! q)"
    by blast
  have rl: "length ranked = team_count s" using rs distinct_card[OF rd] by simp
  have rb: "ranked ! r < team_count s" if "r < team_count s" for r
    using that rs rl nth_mem[of r ranked] by auto
  let ?seq = "map ((!) teams_r) path"
  have m: "map_r (getitem teams_r) path = Inr ?seq"
    using lt rl tr by (intro map_r_getitem) simp
  have "\<exists>ma mb. map_of (teams_to_members s) a = Some ma \<and>
                 map_of (teams_to_members s) b = Some mb \<and> ma \<inter> mb = {}"
    if ab: "(a, b) \<in> set (zip ?seq (tl ?seq))" for a b
  proof -
    from ab obtain i where i: "i < length ?seq" "i < length (tl ?seq)"
      and a: "a = ?seq ! i" and b: "b = tl ?seq ! i"
      by (auto simp: in_set_zip)
    from i have si: "Suc i < length path" by simp
    then have b': "b = ?seq ! Suc i" using b by (simp add: nth_tl)
    define u where "u = path ! i"
    define v where "v = path ! Suc i"
    have un: "u < team_count s" and vn: "v < team_count s"
      using lt si by (simp_all add: u_def v_def)
    have "bit (adj_r ! u) v" using ch si by (simp add: chain_def u_def v_def)
    with bits un have "bit (adjacency_masks s ! (ranked ! u)) (ranked ! v)" by blast
    with f rb[OF un] have dj: "members_at s (ranked ! v) \<inter> members_at s (ranked ! u) = {}"
      by simp
    have "a = teams s ! (ranked ! u)" using a si un rl by (simp add: tr u_def)
    moreover have "b = teams s ! (ranked ! v)" using b' si vn rl by (simp add: tr v_def)
    ultimately show ?thesis
      using members_at_lookup[OF ok rb[OF un]] members_at_lookup[OF ok rb[OF vn]] dj
      by (auto simp: Int_commute)
  qed
  then have "pairs_valid (teams_to_members s) (zip ?seq (tl ?seq)) = Inr (True, None)"
    by (intro pairs_valid_disjoint) auto
  with m show ?thesis by (simp add: sequence_is_valid_def)
qed

lemma produce_cong:
  assumes "\<forall>p \<in> set paths. \<forall>seq. map_r (getitem teams_r) p = Inr seq \<longrightarrow>
             sequence_is_valid s1 seq = sequence_is_valid s2 seq"
  shows "produce s1 limit teams_r paths fin p0 = produce s2 limit teams_r paths fin p0"
  using assms
proof (induction paths arbitrary: p0)
  case Nil
  then show ?case by simp
next
  case (Cons p paths)
  have rest: "\<forall>p \<in> set paths. \<forall>seq. map_r (getitem teams_r) p = Inr seq \<longrightarrow>
             sequence_is_valid s1 seq = sequence_is_valid s2 seq" using Cons.prems by simp
  note IH = Cons.IH[OF rest]
  show ?case
  proof (cases "map_r (getitem teams_r) p")
    case (Inl e)
    then show ?thesis by simp
  next
    case (Inr seq)
    with Cons.prems have eq: "sequence_is_valid s1 seq = sequence_is_valid s2 seq" by simp
    show ?thesis by (simp only: produce.simps Inr sum.case eq IH)
  qed
qed

section \<open>The claims\<close>

text \<open>
  C1.  Every setlist that \<^verbatim>\<open>generate_valid_setlists\<close> yields has passed
  \<^verbatim>\<open>_sequence_is_valid\<close>, so each of its consecutive pairs of teams has
  member sets without a common element; a path whose name sequence fails the check is
  skipped by the loop and is not among the yields.  This holds for any solver object,
  limit, start and end argument.
\<close>

theorem emitted_setlist_is_valid:
  assumes "seq \<in> set (fst (generate_valid_setlists depth self limit start_team end_team debug))"
  shows "sequence_is_valid self seq = Inr (True, None) \<and>
     (\<forall>i. Suc i < length seq \<longrightarrow>
        (\<exists>ma mb. map_of (teams_to_members self) (seq ! i) = Some ma \<and>
                 map_of (teams_to_members self) (seq ! Suc i) = Some mb \<and> ma \<inter> mb = {}))"
proof -
  from assms obtain teams_r paths fin where
    "seq \<in> set (fst (produce self limit teams_r paths fin 0))"
    by (auto simp: generate_valid_setlists_def split: if_splits sum.splits prod.splits)
  then obtain c where v: "sequence_is_valid self seq = Inr (True, c)"
    using produce_valid by blast
  then have pv: "pairs_valid (teams_to_members self) (zip seq (tl seq)) = Inr (True, c)"
    by (simp add: sequence_is_valid_def)
  from pairs_valid_True[OF pv] zip_tl_nth[of _ seq] v show ?thesis by fastforce
qed

theorem emitted_setlist_is_valid_witness:
  "[''a'', ''b'', ''c'']
     \<in> set (fst (generate_valid_setlists 1000 (projr (construct scenario_teams)) None None None False)) \<and>
   sequence_is_valid (projr (construct scenario_teams)) [''a'', ''b'', ''c''] = Inr (True, None)"
proof -
  have h: "[''a'', ''b'', ''c'']
     \<in> set (fst (generate_valid_setlists 1000 (projr (construct scenario_teams)) None None None False))"
    unfolding scenario_teams_def by code_simp
  from emitted_setlist_is_valid[OF h] h show ?thesis by blast
qed

text \<open>
  C2.  For a solver constructed from a dictionary (an association list with distinct
  keys), every setlist the generator yields has as many elements as there are teams,
  has no repeated element, and has exactly the team names as elements: each team name
  occurs once.
\<close>

theorem emitted_setlist_is_permutation:
  assumes "construct tm = Inr s" and "distinct (map fst tm)"
    and "seq \<in> set (fst (generate_valid_setlists depth s limit start_team end_team debug))"
  shows "length seq = length tm \<and> distinct seq \<and> set seq = set (map fst tm) \<and>
         (\<forall>t \<in> set (map fst tm). count_list seq t = 1)"
proof -
  from emitted_is_ranked_path[OF assms(1,3)] obtain ranked sn en p where
    rd: "distinct ranked" and rs: "set ranked = {..<length tm}"
    and po: "path_ok (length tm) sn en p"
    and sq: "seq = map (\<lambda>c. map fst tm ! (ranked ! c)) p" by blast
  have rl: "length ranked = length tm" using rs distinct_card[OF rd] by simp
  have pd: "distinct p" and pl: "length p = length tm" and pb: "\<forall>c \<in> set p. c < length tm"
    using po by (simp_all add: path_ok_def)
  have ps: "set p = {..<length tm}" using pd pl pb by (rule permutation_set)
  have inj: "inj_on (\<lambda>c. map fst tm ! (ranked ! c)) {..<length tm}"
  proof (rule inj_onI)
    fix x y assume x: "x \<in> {..<length tm}" and y: "y \<in> {..<length tm}"
      and eq: "map fst tm ! (ranked ! x) = map fst tm ! (ranked ! y)"
    have "ranked ! x < length (map fst tm)" "ranked ! y < length (map fst tm)"
      using x y rs rl nth_mem[of x ranked] nth_mem[of y ranked] by auto
    with eq have "ranked ! x = ranked ! y"
      using nth_eq_iff_index_eq[OF assms(2)] by blast
    with rd x y rl show "x = y" by (simp add: nth_eq_iff_index_eq)
  qed
  have d: "distinct seq" unfolding sq using pd inj ps by (simp add: distinct_map)
  have "(\<lambda>c. ranked ! c) ` {..<length tm} = set ranked"
    using rl by (auto simp: set_conv_nth)
  then have "(\<lambda>c. map fst tm ! (ranked ! c)) ` {..<length tm} = (\<lambda>i. map fst tm ! i) ` {..<length tm}"
    using rs by (metis image_image)
  also have "\<dots> = set (map fst tm)"
    unfolding set_conv_nth[of "map fst tm"] by (auto simp del: nth_map)
  finally have s: "set seq = set (map fst tm)" unfolding sq by (simp add: ps)
  have "count_list seq t = 1" if "t \<in> set (map fst tm)" for t
    using d s that by (simp add: distinct_count_list)
  then show ?thesis using d s pl sq by simp
qed

theorem emitted_setlist_is_permutation_witness:
  "distinct (map fst scenario_teams) \<and>
   [''a'', ''b'', ''c'']
     \<in> set (fst (generate_valid_setlists 1000 (projr (construct scenario_teams)) None None None False)) \<and>
   length [''a'', ''b'', ''c''] = length scenario_teams \<and>
   distinct [''a'', ''b'', ''c''] \<and>
   set [''a'', ''b'', ''c''] = set (map fst scenario_teams)"
proof -
  have c: "construct scenario_teams = Inr (projr (construct scenario_teams))"
    by (rule construct_projr) (simp add: scenario_teams_def)
  have d: "distinct (map fst scenario_teams)" by (simp add: scenario_teams_def)
  have h: "[''a'', ''b'', ''c'']
     \<in> set (fst (generate_valid_setlists 1000 (projr (construct scenario_teams)) None None None False))"
    unfolding scenario_teams_def by code_simp
  from emitted_setlist_is_permutation[OF c d h] d h show ?thesis by blast
qed

text \<open>
  C3, as amended.  When the start team given is not the empty string, every setlist the
  generator yields begins with it, and when the end team given is not the empty string,
  every setlist ends with it.  Lines 75 and 76 take an empty string for no constraint,
  as they take \<^verbatim>\<open>None\<close>.
\<close>

theorem nonempty_endpoints_enforced:
  assumes "construct tm = Inr s"
    and "seq \<in> set (fst (generate_valid_setlists depth s limit start_team end_team debug))"
  shows "(\<forall>a. start_team = Some a \<and> a \<noteq> '''' \<longrightarrow> seq \<noteq> [] \<and> hd seq = a) \<and>
         (\<forall>b. end_team = Some b \<and> b \<noteq> '''' \<longrightarrow> seq \<noteq> [] \<and> last seq = b)"
proof -
  from emitted_is_ranked_path[OF assms] obtain ranked sn en p where
    st: "if truthy start_team
            then \<exists>v. sn = Some v \<and> map fst tm ! (ranked ! v) = the start_team
            else sn = None"
    and et: "if truthy end_team
            then \<exists>v. en = Some v \<and> map fst tm ! (ranked ! v) = the end_team
            else en = None"
    and po: "path_ok (length tm) sn en p"
    and sq: "seq = map (\<lambda>c. map fst tm ! (ranked ! c)) p" by blast
  have "tm \<noteq> []" using construct_Inr[OF assms(1)] by simp
  then have pne: "p \<noteq> []" using po by (auto simp: path_ok_def)
  have "hd seq = a" if "start_team = Some a" "a \<noteq> ''''" for a
  proof -
    from that st obtain v where v: "sn = Some v" "map fst tm ! (ranked ! v) = a" by auto
    with po pne have "hd p = v" by (simp add: path_ok_def)
    then show ?thesis using v pne by (simp add: sq hd_map)
  qed
  moreover have "last seq = b" if "end_team = Some b" "b \<noteq> ''''" for b
  proof -
    from that et obtain v where v: "en = Some v" "map fst tm ! (ranked ! v) = b" by auto
    with po have "last p = v" by (simp add: path_ok_def)
    then show ?thesis using v pne by (simp add: sq last_map)
  qed
  moreover have "seq \<noteq> []" using pne by (simp add: sq)
  ultimately show ?thesis by blast
qed

theorem nonempty_endpoints_enforced_witness:
  "[''a'', ''b'', ''c'']
     \<in> set (fst (generate_valid_setlists 1000 (projr (construct scenario_teams)) None
                (Some ''a'') (Some ''c'') False)) \<and>
   hd [''a'', ''b'', ''c''] = ''a'' \<and> last [''a'', ''b'', ''c''] = ''c''"
proof -
  have c: "construct scenario_teams = Inr (projr (construct scenario_teams))"
    by (rule construct_projr) (simp add: scenario_teams_def)
  have h: "[''a'', ''b'', ''c'']
     \<in> set (fst (generate_valid_setlists 1000 (projr (construct scenario_teams)) None
                (Some ''a'') (Some ''c'') False))"
    unfolding scenario_teams_def by code_simp
  have "''a'' \<noteq> ''''" "''c'' \<noteq> ''''" by simp_all
  with nonempty_endpoints_enforced[OF c h] h show ?thesis by blast
qed

text \<open>
  The claim as stated fails for a team whose name is the empty string: given as the
  start team, a setlist that begins with \<open>b\<close> is yielded, and given as the end team,
  a setlist that ends with \<open>b\<close> is yielded.
\<close>

theorem empty_endpoint_not_enforced:
  "[''b'', '''']
     \<in> set (fst (generate_valid_setlists 1000 (projr (construct empty_name_teams)) None
                (Some '''') None False)) \<and>
   hd [''b'', ''''] \<noteq> '''' \<and>
   ['''', ''b'']
     \<in> set (fst (generate_valid_setlists 1000 (projr (construct empty_name_teams)) None
                None (Some '''') False)) \<and>
   last ['''', ''b''] \<noteq> ''''"
  unfolding empty_name_teams_def by code_simp

text \<open>
  C4.  For a limit \<open>k \<ge> 0\<close> the generator yields at most \<open>k\<close> setlists, and they
  are the first \<open>k\<close> setlists of the run without a limit, in the same order, whatever
  the start and end arguments are.
\<close>

theorem limit_is_prefix_of_unlimited:
  "0 \<le> k \<Longrightarrow>
     int (length (fst (generate_valid_setlists depth self (Some k) start_team end_team debug))) \<le> k \<and>
     fst (generate_valid_setlists depth self (Some k) start_team end_team debug)
       = take (nat k) (fst (generate_valid_setlists depth self None start_team end_team debug))"
proof -
  assume k: "0 \<le> k"
  have eq: "fst (generate_valid_setlists depth self (Some k) start_team end_team debug)
       = take (nat k) (fst (generate_valid_setlists depth self None start_team end_team debug))"
    using produce_take[OF k] by (auto simp: generate_valid_setlists_def split: sum.splits prod.splits)
  have "length (fst (generate_valid_setlists depth self (Some k) start_team end_team debug)) \<le> nat k"
    unfolding eq by simp
  with k eq show ?thesis by simp
qed

theorem limit_is_prefix_of_unlimited_witness:
  "(0::int) \<le> 1 \<and>
   fst (generate_valid_setlists 1000 (projr (construct scenario_teams)) (Some 1) None None False)
     = [[''a'', ''b'', ''c'']] \<and>
   fst (generate_valid_setlists 1000 (projr (construct scenario_teams)) None None None False)
     = [[''a'', ''b'', ''c''], [''c'', ''b'', ''a'']]"
proof -
  have u: "fst (generate_valid_setlists 1000 (projr (construct scenario_teams)) None None None False)
     = [[''a'', ''b'', ''c''], [''c'', ''b'', ''a'']]"
    unfolding scenario_teams_def by code_simp
  have k: "(0::int) \<le> 1" by simp
  from limit_is_prefix_of_unlimited[OF k, of 1000 "projr (construct scenario_teams)" None None False] u
  show ?thesis by simp
qed

text \<open>
  C5.  The masks of a constructed solver are the list that
  \<^verbatim>\<open>_build_compatibility_graph\<close> returns on its fields; for two different indices
  \<open>i\<close> and \<open>j\<close> bit \<open>j\<close> of mask \<open>i\<close> is set exactly when bit \<open>i\<close> of mask \<open>j\<close>
  is, and bit \<open>i\<close> of mask \<open>i\<close> is never set.
\<close>

theorem adjacency_symmetric_irreflexive:
  assumes "construct tm = Inr s"
  shows "build_compatibility_graph (teams_to_members s) (teams s) (team_count s)
           = Inr (adjacency_masks s) \<and>
         (\<forall>i j. i < team_count s \<and> j < team_count s \<and> i \<noteq> j \<longrightarrow>
            (bit (adjacency_masks s ! i) j \<longleftrightarrow> bit (adjacency_masks s ! j) i)) \<and>
         (\<forall>i < team_count s. \<not> bit (adjacency_masks s ! i) i)"
proof -
  note f = construct_Inr[OF assms]
  have b: "build_compatibility_graph (teams_to_members s) (teams s) (team_count s)
           = Inr (adjacency_masks s)"
    using assms by (auto simp: construct_def Let_def split: if_splits sum.splits)
  have "bit (adjacency_masks s ! i) j \<longleftrightarrow> bit (adjacency_masks s ! j) i"
    if "i < team_count s" "j < team_count s" "i \<noteq> j" for i j
    using f that by (auto simp: Int_commute)
  moreover have "\<not> bit (adjacency_masks s ! i) i" if "i < team_count s" for i
    using f that by simp
  ultimately show ?thesis using b by blast
qed

theorem adjacency_symmetric_irreflexive_witness:
  "team_count (projr (construct scenario_teams)) = 3 \<and>
   (bit (adjacency_masks (projr (construct scenario_teams)) ! 0) 1
      \<longleftrightarrow> bit (adjacency_masks (projr (construct scenario_teams)) ! 1) 0) \<and>
   \<not> bit (adjacency_masks (projr (construct scenario_teams)) ! 2) 2"
proof -
  have c: "construct scenario_teams = Inr (projr (construct scenario_teams))"
    by (rule construct_projr) (simp add: scenario_teams_def)
  have n: "team_count (projr (construct scenario_teams)) = 3"
    using construct_Inr[OF c] by (simp add: scenario_teams_def)
  from adjacency_symmetric_irreflexive[OF c] have
    "\<forall>i j. i < 3 \<and> j < 3 \<and> i \<noteq> j \<longrightarrow>
       (bit (adjacency_masks (projr (construct scenario_teams)) ! i) j
          \<longleftrightarrow> bit (adjacency_masks (projr (construct scenario_teams)) ! j) i)"
    and "\<forall>i < 3. \<not> bit (adjacency_masks (projr (construct scenario_teams)) ! i) i"
    unfolding n by blast+
  then have "bit (adjacency_masks (projr (construct scenario_teams)) ! 0) 1
          \<longleftrightarrow> bit (adjacency_masks (projr (construct scenario_teams)) ! 1) 0"
    and "\<not> bit (adjacency_masks (projr (construct scenario_teams)) ! 2) 2"
    by simp_all
  with n show ?thesis by blast
qed

text \<open>
  C6, as amended.  The constructor raises exactly on the empty dictionary.  On a
  constructed solver the generator raises the error of line 53 or of line 55 exactly
  when a start or end team is given that is not the empty string and is not a key of
  the dictionary, and then before any setlist is yielded.  Otherwise the only error a
  run can end with is the \<^verbatim>\<open>RecursionError\<close> of the search, and the run ends
  normally, for every dictionary and every limit, whenever the depth is greater than
  the number of teams: room for one frame of \<^verbatim>\<open>solve\<close> per team and one more.
\<close>

theorem error_contract:
  "(construct tm = Inl err \<longleftrightarrow> tm = [] \<and> err = EmptyInput) \<and>
   (construct tm = Inr s \<longrightarrow>
      ((\<exists>t. snd (generate_valid_setlists depth s limit start_team end_team debug)
               = Some (StartNotFound t) \<or>
             snd (generate_valid_setlists depth s limit start_team end_team debug)
               = Some (EndNotFound t)) \<longleftrightarrow>
         (\<exists>a. start_team = Some a \<and> a \<noteq> '''' \<and> a \<notin> set (map fst tm)) \<or>
         (\<exists>b. end_team = Some b \<and> b \<noteq> '''' \<and> b \<notin> set (map fst tm))) \<and>
      ((\<exists>t. snd (generate_valid_setlists depth s limit start_team end_team debug)
               = Some (StartNotFound t) \<or>
             snd (generate_valid_setlists depth s limit start_team end_team debug)
               = Some (EndNotFound t)) \<longrightarrow>
         fst (generate_valid_setlists depth s limit start_team end_team debug) = []) \<and>
      (snd (generate_valid_setlists depth s limit start_team end_team debug) = None \<or>
       snd (generate_valid_setlists depth s limit start_team end_team debug)
         = Some RecursionError \<or>
       (\<exists>t. snd (generate_valid_setlists depth s limit start_team end_team debug)
               = Some (StartNotFound t) \<or>
             snd (generate_valid_setlists depth s limit start_team end_team debug)
               = Some (EndNotFound t))) \<and>
      (length tm < depth \<longrightarrow>
         (snd (generate_valid_setlists depth s limit start_team end_team debug) \<noteq> None \<longleftrightarrow>
            (\<exists>a. start_team = Some a \<and> a \<noteq> '''' \<and> a \<notin> set (map fst tm)) \<or>
            (\<exists>b. end_team = Some b \<and> b \<noteq> '''' \<and> b \<notin> set (map fst tm)))))"
proof (intro conjI impI)
  show "construct tm = Inl err \<longleftrightarrow> tm = [] \<and> err = EmptyInput"
  proof (cases "tm = []")
    case True
    then show ?thesis by (auto simp: construct_def)
  next
    case False
    from construct_nonempty[OF this] False show ?thesis by auto
  qed
next
  assume c: "construct tm = Inr s"
  have ok: "solver_ok s" using c by (rule construct_solver_ok)
  have n: "team_count s = length tm" using construct_Inr[OF c] by simp
  let ?G = "generate_valid_setlists depth s limit start_team end_team debug"
  let ?bad = "truthy start_team \<and> team_to_idx s (the start_team) = None \<or>
              truthy end_team \<and> team_to_idx s (the end_team) = None"
  let ?unknown = "(\<exists>a. start_team = Some a \<and> a \<noteq> '''' \<and> a \<notin> set (map fst tm)) \<or>
                  (\<exists>b. end_team = Some b \<and> b \<noteq> '''' \<and> b \<notin> set (map fst tm))"
  let ?value_error = "\<exists>t. snd ?G = Some (StartNotFound t) \<or> snd ?G = Some (EndNotFound t)"
  have bad: "?bad \<longleftrightarrow> ?unknown"
    using team_to_idx_None[OF c] by (cases start_team; cases end_team) auto
  have raised: "fst ?G = [] \<and> snd ?G \<noteq> None \<and> ?value_error" if "?bad"
    using generate_raises[OF that] by blast
  have fine: "(snd ?G = None \<or> snd ?G = Some RecursionError) \<and>
              (length tm < depth \<longrightarrow> snd ?G = None)" if "\<not> ?bad"
  proof -
    from that have "truthy start_team \<longrightarrow> team_to_idx s (the start_team) \<noteq> None"
      and "truthy end_team \<longrightarrow> team_to_idx s (the end_team) \<noteq> None" by auto
    from generate_ok[OF ok this, of depth limit debug] show ?thesis unfolding n by blast
  qed
  show iff: "?value_error \<longleftrightarrow> ?unknown"
  proof
    assume "?unknown"
    then show "?value_error" using raised bad by blast
  next
    assume v: "?value_error"
    show "?unknown"
    proof (rule ccontr)
      assume "\<not> ?unknown"
      then have "\<not> ?bad" using bad by blast
      from fine[OF this] v show False by auto
    qed
  qed
  show "snd ?G = None \<or> snd ?G = Some RecursionError \<or> ?value_error"
    using raised fine by blast
  show "snd ?G \<noteq> None \<longleftrightarrow> ?unknown" if room: "length tm < depth"
  proof (cases "?bad")
    case True
    with raised bad show ?thesis by blast
  next
    case False
    from fine[OF this] room have "snd ?G = None" by blast
    with False bad show ?thesis by blast
  qed
  assume "?value_error"
  with iff have "?unknown" by (rule iffD1)
  with bad have "?bad" by (rule iffD2)
  then show "fst ?G = []" using raised by blast
qed

theorem error_contract_witness:
  "construct scenario_teams = Inr (projr (construct scenario_teams)) \<and>
   snd (generate_valid_setlists 1000 (projr (construct scenario_teams)) None (Some ''z'') None False)
     = Some (StartNotFound ''z'') \<and>
   fst (generate_valid_setlists 1000 (projr (construct scenario_teams)) None (Some ''z'') None False)
     = [] \<and>
   length scenario_teams < 1000 \<and>
   snd (generate_valid_setlists 1000 (projr (construct scenario_teams)) None (Some ''a'') (Some ''c'') False)
     = None"
proof -
  have c: "construct scenario_teams = Inr (projr (construct scenario_teams))"
    by (rule construct_projr) (simp add: scenario_teams_def)
  have z: "snd (generate_valid_setlists 1000 (projr (construct scenario_teams)) None (Some ''z'') None False)
     = Some (StartNotFound ''z'')"
    unfolding scenario_teams_def by code_simp
  have l: "length scenario_teams < 1000" by (simp add: scenario_teams_def)
  have a: "\<not> ((\<exists>a. Some ''a'' = Some a \<and> a \<noteq> '''' \<and> a \<notin> set (map fst scenario_teams)) \<or>
         (\<exists>b. Some ''c'' = Some b \<and> b \<noteq> '''' \<and> b \<notin> set (map fst scenario_teams)))"
    by (simp add: scenario_teams_def)
  from error_contract[of scenario_teams _ "projr (construct scenario_teams)" 1000 None "Some ''z''" None False] c z
  have 1: "fst (generate_valid_setlists 1000 (projr (construct scenario_teams)) None (Some ''z'') None False)
     = []" by blast
  from error_contract[of scenario_teams _ "projr (construct scenario_teams)" 1000 None "Some ''a''" "Some ''c''" False] c a l
  have 2: "snd (generate_valid_setlists 1000 (projr (construct scenario_teams)) None (Some ''a'') (Some ''c'') False)
     = None" by blast
  from c z 1 l 2 show ?thesis by blast
qed

text \<open>
  The claim as stated fails in two ways.  The empty string, given as the start team, is
  not a key of the dictionary, and the generator yields both setlists and ends
  normally.  And a call with no start and no end team raises: with room for three
  frames of \<^verbatim>\<open>solve\<close>, one less than a path of three teams takes, the search
  ends with \<^verbatim>\<open>RecursionError\<close> before any setlist is yielded.
\<close>

theorem unknown_empty_start_raises_nothing:
  "'''' \<notin> set (map fst scenario_teams) \<and>
   generate_valid_setlists 1000 (projr (construct scenario_teams)) None (Some '''') None False
     = ([[''a'', ''b'', ''c''], [''c'', ''b'', ''a'']], None) \<and>
   generate_valid_setlists 3 (projr (construct scenario_teams)) None None None False
     = ([], Some RecursionError)"
  unfolding scenario_teams_def by code_simp

text \<open>
  C7.  Two calls with the same limit, start team and end team, on constructed solvers
  with the same graph (the same list of teams and the same adjacency masks), return the
  same setlists in the same order and end the same way, whatever the debug flag is; in
  particular two calls on one solver.  What is yielded depends on the graph and the
  arguments alone (and the end of the run on the room that the interpreter leaves, the
  same for both calls).
\<close>

theorem same_graph_same_output:
  assumes c1: "construct tm1 = Inr s1" and c2: "construct tm2 = Inr s2"
    and t: "teams s1 = teams s2" and a: "adjacency_masks s1 = adjacency_masks s2"
  shows "generate_valid_setlists depth s1 limit start_team end_team debug1
       = generate_valid_setlists depth s2 limit start_team end_team debug2"
proof -
  note f1 = construct_Inr[OF c1] and f2 = construct_Inr[OF c2]
  have n: "team_count s1 = team_count s2" using f1 f2 t by (metis length_map)
  have ix: "team_to_idx s1 = team_to_idx s2" using f1 f2 t by simp
  have nd: "node_of s1 d team = node_of s2 d team" for d team
    by (simp add: node_of_def ix)
  have pr: "prepare s1 start_team end_team = prepare s2 start_team end_team"
    unfolding prepare_def n t a nd by (rule refl)
  have ok1: "solver_ok s1" using c1 by (rule construct_solver_ok)
  have ok2: "solver_ok s2" using c2 by (rule construct_solver_ok)
  show ?thesis
  proof (cases "(truthy start_team \<longrightarrow> team_to_idx s2 (the start_team) \<noteq> None) \<and>
                (truthy end_team \<longrightarrow> team_to_idx s2 (the end_team) \<noteq> None)")
    case False
    then show ?thesis by (auto simp: generate_valid_setlists_def ix)
  next
    case True
    from prepare_ok[OF ok2 True[THEN conjunct1] True[THEN conjunct2]] obtain teams_r adj_r sn en
      where p2: "prepare s2 start_team end_team = Inr (teams_r, adj_r, sn, en)"
        and g: "graph_ok (team_count s2) adj_r" and sn: "node_ok (team_count s2) sn"
        and en: "node_ok (team_count s2) en" by blast
    have p1: "prepare s1 start_team end_team = Inr (teams_r, adj_r, sn, en)" using pr p2 by simp
    obtain paths fin where b: "backtrack_with_end depth (team_count s2) adj_r sn en = (paths, fin)"
      by (cases "backtrack_with_end depth (team_count s2) adj_r sn en")
    have same: "\<forall>p \<in> set paths. \<forall>seq. map_r (getitem teams_r) p = Inr seq \<longrightarrow>
             sequence_is_valid s1 seq = sequence_is_valid s2 seq"
    proof (intro ballI allI impI)
      fix p seq assume pp: "p \<in> set paths" and m: "map_r (getitem teams_r) p = Inr seq"
      from backtrack_ok[OF g sn en, of depth] b pp have "path_ok (team_count s2) sn en p" by simp
      then have lt: "\<forall>c \<in> set p. c < team_count s2" by (simp add: path_ok_def)
      from backtrack_chain[of depth "team_count s2" adj_r sn en] b pp have ch: "chain adj_r p" by simp
      from search_path_is_valid[OF c2 p2 ch lt] search_path_is_valid[OF c1 p1 ch lt[folded n]] m
      show "sequence_is_valid s1 seq = sequence_is_valid s2 seq" by simp
    qed
    from produce_cong[OF same] show ?thesis
      using p1 p2 b n ix by (simp add: generate_valid_setlists_def)
  qed
qed

theorem same_graph_same_output_witness:
  "construct scenario_teams = Inr (projr (construct scenario_teams)) \<and>
   construct same_graph_teams = Inr (projr (construct same_graph_teams)) \<and>
   teams (projr (construct scenario_teams)) = teams (projr (construct same_graph_teams)) \<and>
   adjacency_masks (projr (construct scenario_teams))
     = adjacency_masks (projr (construct same_graph_teams)) \<and>
   generate_valid_setlists 1000 (projr (construct scenario_teams)) None None None False
     = generate_valid_setlists 1000 (projr (construct same_graph_teams)) None None None True"
proof -
  have c1: "construct scenario_teams = Inr (projr (construct scenario_teams))"
    by (rule construct_projr) (simp add: scenario_teams_def)
  have c2: "construct same_graph_teams = Inr (projr (construct same_graph_teams))"
    by (rule construct_projr) (simp add: same_graph_teams_def)
  have t: "teams (projr (construct scenario_teams)) = teams (projr (construct same_graph_teams))"
    using construct_Inr[OF c1] construct_Inr[OF c2]
    by (simp add: scenario_teams_def same_graph_teams_def)
  have a: "adjacency_masks (projr (construct scenario_teams))
     = adjacency_masks (projr (construct same_graph_teams))"
    unfolding scenario_teams_def same_graph_teams_def by code_simp
  from same_graph_same_output[OF c1 c2 t a, of 1000 None None None False True] c1 c2 t a
  show ?thesis by blast
qed

text \<open>
  C8.  On the teams \<open>a:{x}\<close>, \<open>b:{y}\<close>, \<open>c:{x}\<close> the construction succeeds, the
  generator without constraint and limit yields \<open>[a,b,c]\<close> and \<open>[c,b,a]\<close> and ends, and
  with the start team \<open>a\<close> it yields \<open>[a,b,c]\<close> alone.  This holds for every depth
  from four on, the frames that a path of three teams takes.
\<close>

theorem concrete_scenario:
  "(case construct scenario_teams of
      Inl e \<Rightarrow> False
    | Inr s \<Rightarrow>
        generate_valid_setlists (Suc (Suc (Suc (Suc depth)))) s None None None debug
          = ([[''a'', ''b'', ''c''], [''c'', ''b'', ''a'']], None) \<and>
        generate_valid_setlists (Suc (Suc (Suc (Suc depth)))) s None (Some ''a'') None debug
          = ([[''a'', ''b'', ''c'']], None))"
  unfolding scenario_teams_def by code_simp

text \<open>
  C9.  With an end node \<open>e\<close>, in a frame whose path is not empty, on a graph of \<open>n\<close>
  nodes: before the last slot the candidates are the bits of
  \<^verbatim>\<open>adj_r[last] & ~used_mask\<close> other than \<open>e\<close>; at the last slot the only
  candidate is \<open>e\<close> if it is a bit of that mask, and otherwise there is no candidate
  list, and the frame (\<open>Suc depth\<close>: it has been entered) returns with no yield and
  the state unchanged.
\<close>

theorem end_node_reservation:
  assumes g: "graph_ok n adj_r" and e: "e < n" and p: "path \<noteq> []" and l: "last path < n"
  shows "(int (length path) < int n - 1 \<longrightarrow>
            (\<exists>cs. candidates n adj_r start_node_r (Some e) path used_mask = Inr (Some cs) \<and>
                  set cs = {c. bit ((adj_r ! last path) AND NOT used_mask) c} - {e})) \<and>
         (int (length path) = int n - 1 \<longrightarrow>
            (if bit ((adj_r ! last path) AND NOT used_mask) e
             then candidates n adj_r start_node_r (Some e) path used_mask = Inr (Some [e])
             else candidates n adj_r start_node_r (Some e) path used_mask = Inr None \<and>
                  solve (Suc depth) n adj_r start_node_r (Some e) (path, used_mask)
                    = (([], None), (path, used_mask))))"
proof -
  define a where "a = adj_r ! last path"
  define base where "base = a AND NOT used_mask"
  have len: "length adj_r = n" using g by (simp add: graph_ok_def)
  have ga: "getitem adj_r (last path) = Inr a" using l len by (simp add: getitem_def a_def)
  have ain: "a \<in> set adj_r" using l len by (simp add: a_def)
  have a0: "0 \<le> a" using g ain by (simp add: graph_ok_def)
  have b0: "0 \<le> base" using a0 by (simp add: base_def)
  have bb: "c < n" if "bit base c" for c
    using that graph_ok_bit[OF g ain, of c] by (simp add: base_def bit_and_iff)
  have L: "length path \<noteq> 0" using p by simp
  have key: "\<exists>y. (case getitem adj_r c of Inl e \<Rightarrow> Inl e
                 | Inr b \<Rightarrow> Inr (bin_count1 (b AND NOT used_mask))) = Inr y" if "c < n" for c
    using that len by (simp add: getitem_def)
  have c1: "\<exists>cs. candidates n adj_r start_node_r (Some e) path used_mask = Inr (Some cs) \<and>
                  set cs = {c. bit base c} - {e}"
    if lt: "int (length path) < int n - 1"
  proof -
    define m where "m = base AND NOT (push_bit e 1)"
    have r: "reserve_end n (Some e) (length path) (a AND NOT used_mask) = Some m"
      using lt by (simp add: reserve_end_def m_def base_def)
    have m0: "0 \<le> m" using b0 by (simp add: m_def)
    have mb: "{i. bit m i} = {c. bit base c} - {e}"
      by (auto simp: m_def bit_and_iff bit_not_int_iff bit_exp_iff)
    define cs0 where "cs0 = sorted_list_of_set {i. bit m i}"
    have bl: "bits_loop m [] = Some cs0" using m0 by (simp add: bits_loop_pos cs0_def)
    have cs0: "set cs0 = {i. bit m i}" using m0 by (simp add: cs0_def finite_bits_nonneg)
    have "\<forall>c \<in> set cs0. \<exists>y. (case getitem adj_r c of Inl e \<Rightarrow> Inl e
                 | Inr b \<Rightarrow> Inr (bin_count1 (b AND NOT used_mask))) = Inr y"
      using key bb by (auto simp: cs0 mb)
    from sorted_by_ok[OF this] obtain cs where
      cs: "sorted_by (\<lambda>c. case getitem adj_r c of Inl e \<Rightarrow> Inl e
                 | Inr b \<Rightarrow> Inr (bin_count1 (b AND NOT used_mask))) cs0 = Inr cs" by blast
    have "set cs = {c. bit base c} - {e}" using sorted_by_set[OF cs] cs0 mb by simp
    moreover have "candidates n adj_r start_node_r (Some e) path used_mask = Inr (Some cs)"
      using L ga r bl cs by (simp add: candidates_def)
    ultimately show ?thesis by blast
  qed
  have c2: "candidates n adj_r start_node_r (Some e) path used_mask = Inr (Some [e])"
    if eq: "int (length path) = int n - 1" and be: "bit base e"
  proof -
    have r: "reserve_end n (Some e) (length path) (a AND NOT used_mask) = Some (2 ^ e)"
      using eq be by (simp add: reserve_end_def base_def test_bit_iff)
    have bl: "bits_loop (2 ^ e) [] = Some [e]"
      by (simp add: bits_loop_pos bits_single)
    obtain y where y: "(case getitem adj_r e of Inl e \<Rightarrow> Inl e
                 | Inr b \<Rightarrow> Inr (bin_count1 (b AND NOT used_mask))) = Inr y"
      using key[OF e] by blast
    have "sorted_by (\<lambda>c. case getitem adj_r c of Inl e \<Rightarrow> Inl e
                 | Inr b \<Rightarrow> Inr (bin_count1 (b AND NOT used_mask))) [e] = Inr [e]"
      by (simp add: sorted_by_def y)
    then show ?thesis using L ga r bl by (simp add: candidates_def)
  qed
  have c3: "candidates n adj_r start_node_r (Some e) path used_mask = Inr None \<and>
            solve (Suc depth) n adj_r start_node_r (Some e) (path, used_mask)
              = (([], None), (path, used_mask))"
    if eq: "int (length path) = int n - 1" and be: "\<not> bit base e"
  proof -
    have r: "reserve_end n (Some e) (length path) (a AND NOT used_mask) = None"
      using eq be by (simp add: reserve_end_def base_def test_bit_iff)
    have c: "candidates n adj_r start_node_r (Some e) path used_mask = Inr None"
      using L ga r by (simp add: candidates_def)
    have "length path \<noteq> n" using eq by linarith
    then show ?thesis using c
      by (simp add: solve.simps(2)[of depth n adj_r start_node_r "Some e" path used_mask])
  qed
  show ?thesis using c1 c2 c3 unfolding base_def a_def by simp
qed

theorem end_node_reservation_witness:
  "graph_ok 4 complete4 \<and>
   (\<exists>cs. candidates 4 complete4 None (Some 3) [0] 1 = Inr (Some cs) \<and>
         set cs = {c. bit ((complete4 ! last [0]) AND NOT 1) c} - {3}) \<and>
   candidates 4 complete4 None (Some 3) [0, 1, 2] 7 = Inr (Some [3]) \<and>
   candidates 4 complete4 None (Some 3) [0, 3, 1] 11 = Inr None \<and>
   solve (Suc 0) 4 complete4 None (Some 3) ([0, 3, 1], 11) = (([], None), ([0, 3, 1], 11))"
proof -
  have g: "graph_ok 4 complete4" by (simp add: graph_ok_def complete4_def)
  have e: "(3::nat) < 4" by simp
  have 1: "\<exists>cs. candidates 4 complete4 None (Some 3) [0] 1 = Inr (Some cs) \<and>
         set cs = {c. bit ((complete4 ! last [0]) AND NOT 1) c} - {3}"
  proof -
    have p: "[0::nat] \<noteq> []" and l: "last [0::nat] < 4" and lt: "int (length [0::nat]) < int 4 - 1"
      by simp_all
    from end_node_reservation[OF g e p l, of None 1] lt show ?thesis by blast
  qed
  have 2: "candidates 4 complete4 None (Some 3) [0, 1, 2] 7 = Inr (Some [3])"
  proof -
    have p: "[0, 1, 2::nat] \<noteq> []" and l: "last [0, 1, 2::nat] < 4"
      and eq: "int (length [0, 1, 2::nat]) = int 4 - 1" by simp_all
    have b: "bit ((complete4 ! last [0, 1, 2]) AND NOT 7) 3"
      unfolding complete4_def by code_simp
    from end_node_reservation[OF g e p l, of None 7] eq b show ?thesis unfolding if_bool_eq_conj by blast
  qed
  have 3: "candidates 4 complete4 None (Some 3) [0, 3, 1] 11 = Inr None \<and>
   solve (Suc 0) 4 complete4 None (Some 3) ([0, 3, 1], 11) = (([], None), ([0, 3, 1], 11))"
  proof -
    have p: "[0, 3, 1::nat] \<noteq> []" and l: "last [0, 3, 1::nat] < 4"
      and eq: "int (length [0, 3, 1::nat]) = int 4 - 1" by simp_all
    have b: "\<not> bit ((complete4 ! last [0, 3, 1]) AND NOT 11) 3"
      unfolding complete4_def by code_simp
    from end_node_reservation[OF g e p l, of None 11 0] eq b show ?thesis unfolding if_bool_eq_conj by blast
  qed
  from g 1 2 3 show ?thesis by blast
qed

text \<open>
  C10.  With the empty string as start team the generator does what it does with no
  start team, and likewise for the end team, whether or not the empty string is a team
  name: the same setlists in the same order and the same end of the run, so the empty
  string raises nothing that the call without the argument does not raise.
\<close>

theorem empty_string_is_no_constraint:
  "generate_valid_setlists depth self limit (Some '''') end_team debug
     = generate_valid_setlists depth self limit None end_team debug \<and>
   generate_valid_setlists depth self limit start_team (Some '''') debug
     = generate_valid_setlists depth self limit start_team None debug"
proof -
  have n: "node_of self d (Some '''') = node_of self d None" for d
    by (simp add: node_of_def)
  have "prepare self (Some '''') end_team = prepare self None end_team"
    and "prepare self start_team (Some '''') = prepare self start_team None"
    unfolding prepare_def n by (rule refl)+
  then show ?thesis by (simp_all add: generate_valid_setlists_def)
qed

end
